theory Spec2Isabelle
  imports Main "HOL-Library.Monad_Syntax" "HOL-Library.Signed_Division"
begin

section \<open>Constants of grcal.h and grcal.c\<close>

text \<open>
  A shallow embedding of the Gregorian day engine of grcal.c: the two local helpers and
  the three public functions.  The functions are embedded twice.  This first embedding
  computes on \<^typ>\<open>int\<close> exactly; the second one, further down, passes every arithmetic
  result through an overflow policy, so that the absence of 32-bit overflow is a theorem
  and not an assumption.  C's \<^verbatim>\<open>/\<close> and \<^verbatim>\<open>%\<close>, which truncate towards zero, are
  \<open>sdiv\<close> and \<open>smod\<close>.  A call of \<^verbatim>\<open>abort()\<close> is the result \<open>None\<close>, and it ends the
  caller as well.  The preprocessor constants keep their names.
\<close>

abbreviation (input) GRCAL_DAY_MAX :: int where "GRCAL_DAY_MAX \<equiv> 3074323"
abbreviation (input) GRCAL_DAY_UNIX :: int where "GRCAL_DAY_UNIX \<equiv> 141427"
abbreviation (input) DAY_OFFSET :: int where "DAY_OFFSET \<equiv> 139750"
abbreviation (input) FIRST_MONDAY :: int where "FIRST_MONDAY \<equiv> 3"
abbreviation (input) WEEK_LENGTH :: int where "WEEK_LENGTH \<equiv> 7"
abbreviation (input) MONTH_COUNT :: int where "MONTH_COUNT \<equiv> 12"
abbreviation (input) MONTH_OFFSET :: int where "MONTH_OFFSET \<equiv> 2"
abbreviation (input) LONG_MONTH_LENGTH :: int where "LONG_MONTH_LENGTH \<equiv> 31"
abbreviation (input) SHORT_MONTH_LENGTH :: int where "SHORT_MONTH_LENGTH \<equiv> 30"
abbreviation (input) LEAP_MONTH_LENGTH :: int where "LEAP_MONTH_LENGTH \<equiv> 29"
abbreviation (input) NONLEAP_MONTH_LENGTH :: int where "NONLEAP_MONTH_LENGTH \<equiv> 28"
abbreviation (input) QC_DAYS :: int where "QC_DAYS \<equiv> 146097"
abbreviation (input) C_DAYS :: int where "C_DAYS \<equiv> 36524"
abbreviation (input) Q_DAYS :: int where "Q_DAYS \<equiv> 1461"
abbreviation (input) Y_DAYS :: int where "Y_DAYS \<equiv> 365"
abbreviation (input) Y_LEAP_DAYS :: int where "Y_LEAP_DAYS \<equiv> 366"
abbreviation (input) QC_C_COUNT :: int where "QC_C_COUNT \<equiv> 4"
abbreviation (input) C_Q_COUNT :: int where "C_Q_COUNT \<equiv> 25"
abbreviation (input) Q_Y_COUNT :: int where "Q_Y_COUNT \<equiv> 4"
abbreviation (input) QC_YEARS :: int where "QC_YEARS \<equiv> 400"
abbreviation (input) C_YEARS :: int where "C_YEARS \<equiv> 100"
abbreviation (input) Q_YEARS :: int where "Q_YEARS \<equiv> 4"
abbreviation (input) BASE_YEAR :: int where "BASE_YEAR \<equiv> 1200"
abbreviation (input) MAX_YEAR :: int where "MAX_YEAR \<equiv> 9999"

definition m_pattern :: string where
  "m_pattern = ''+-+-++-+-++*''"

section \<open>Output parameters\<close>

text \<open>
  A pointer argument is either \<^verbatim>\<open>NULL\<close> or the address of a variable of the caller,
  represented by the current contents of that variable; a function returns the contents
  after the call.  \<open>store p v\<close> is \<^verbatim>\<open>if (p != NULL) { *p = v; }\<close>.  The pointers of one
  call address different variables (grcal.h leaves the aliased case undefined).
\<close>

datatype 'a ptr = NULL | Cell 'a

fun store :: "'a ptr \<Rightarrow> 'a \<Rightarrow> 'a ptr" where
  "store NULL v = NULL"
| "store (Cell old) v = Cell v"

section \<open>Local functions\<close>

definition isLeapYear :: "int \<Rightarrow> int option" where
  "isLeapYear y =
     (if y < 1 then None
      else
        let leapyear = 0;
            leapyear = (if y smod 400 = 0 then 1 else leapyear);
            leapyear = (if y smod 4 = 0 \<and> y smod 100 \<noteq> 0 then 1 else leapyear)
        in Some leapyear)"

definition monthLength :: "int \<Rightarrow> int option" where
  "monthLength i =
     (if i < 0 \<or> i \<ge> MONTH_COUNT then None
      else
        let c = m_pattern ! nat i
        in if c = CHR ''+'' then Some LONG_MONTH_LENGTH
           else if c = CHR ''-'' then Some SHORT_MONTH_LENGTH
           else if c = CHR ''*'' then Some 0
           else None)"

section \<open>grcal_offsetToDate\<close>

text \<open>The \<^verbatim>\<open>while (d > 0)\<close> loop over the month pattern, on the variables month and d.\<close>

function offsetToDate_loop :: "int \<Rightarrow> int \<Rightarrow> (int \<times> int) option" where
  "offsetToDate_loop month d =
     (if d > 0 then
        (case monthLength month of
           None \<Rightarrow> None
         | Some ml \<Rightarrow>
             if ml = 0 \<or> d < ml then Some (month, d)
             else offsetToDate_loop (month + 1) (d - ml))
      else Some (month, d))"
  by pat_completeness auto
termination
  by (relation "measure (\<lambda>(month, d). nat d)")
     (auto simp: monthLength_def Let_def split: if_splits)

declare offsetToDate_loop.simps [simp del]

definition grcal_offsetToDate ::
  "int \<Rightarrow> int ptr \<Rightarrow> int ptr \<Rightarrow> int ptr \<Rightarrow> (int ptr \<times> int ptr \<times> int ptr) option" where
  "grcal_offsetToDate offs pYear pMonth pDayOfMonth =
     (if offs < 0 \<or> offs > GRCAL_DAY_MAX then None
      else do {
        let offs = offs + DAY_OFFSET;
        let qc = offs sdiv QC_DAYS;
        let offs = offs smod QC_DAYS;
        let c = offs sdiv C_DAYS;
        let offs = offs smod C_DAYS;
        let q = offs sdiv Q_DAYS;
        let offs = offs smod Q_DAYS;
        let y = offs sdiv Y_DAYS;
        let offs = offs smod Y_DAYS;
        let d = offs;
        let (c, q, y, d) =
          (if c = QC_C_COUNT
           then (QC_C_COUNT - 1, C_Q_COUNT - 1, Q_Y_COUNT - 1, Y_LEAP_DAYS - 1)
           else (c, q, y, d));
        let (y, d) =
          (if y = Q_Y_COUNT then (Q_Y_COUNT - 1, Y_LEAP_DAYS - 1) else (y, d));
        let year = (qc * QC_YEARS) + (c * C_YEARS) + (q * Q_YEARS) + y + BASE_YEAR;
        (month, d) \<leftarrow> offsetToDate_loop 0 d;
        let day = d + 1;
        let month = month + MONTH_OFFSET;
        let (month, year) =
          (if month \<ge> MONTH_COUNT then (month - MONTH_COUNT, year + 1) else (month, year));
        let month = month + 1;
        Some (store pYear year, store pMonth month, store pDayOfMonth day)
      })"

section \<open>grcal_dateToOffset\<close>

text \<open>The \<^verbatim>\<open>for (x = 0; x < month; x++)\<close> loop adding month lengths to offs.\<close>

function dateToOffset_loop :: "int \<Rightarrow> int \<Rightarrow> int \<Rightarrow> int option" where
  "dateToOffset_loop x month offs =
     (if x < month then
        (case monthLength x of
           None \<Rightarrow> None
         | Some ml \<Rightarrow> dateToOffset_loop (x + 1) month (offs + ml))
      else Some offs)"
  by pat_completeness auto
termination
  by (relation "measure (\<lambda>(x, month, offs). nat (month - x))") auto

declare dateToOffset_loop.simps [simp del]

definition grcal_dateToOffset ::
  "int ptr \<Rightarrow> int \<Rightarrow> int \<Rightarrow> int \<Rightarrow> (int \<times> int ptr) option" where
  "grcal_dateToOffset pOffs year month dayofmonth =
     do {
       let result = (1::int);
       let result =
         (if year \<le> BASE_YEAR \<or> month < 1 \<or> dayofmonth < 1 then 0 else result);
       let result =
         (if result \<noteq> 0 \<and> (year > MAX_YEAR \<or> month > MONTH_COUNT) then 0 else result);
       let dayofmonth = (if result \<noteq> 0 then dayofmonth - 1 else dayofmonth);
       let (year, month) =
         (if result \<noteq> 0 then
            let month = month - 1 - MONTH_OFFSET
            in if month < 0 then (year - 1, month + MONTH_COUNT) else (year, month)
          else (year, month));
       result \<leftarrow>
         (if result \<noteq> 0 then do {
            month_len \<leftarrow> monthLength month;
            month_len \<leftarrow>
              (if month_len = 0 then do {
                 leap \<leftarrow> isLeapYear (year + 1);
                 Some (if leap \<noteq> 0 then LEAP_MONTH_LENGTH else NONLEAP_MONTH_LENGTH)
               } else Some month_len);
            Some (if dayofmonth \<ge> month_len then 0 else result)
          } else Some result);
       let year = (if result \<noteq> 0 then year - BASE_YEAR else year);
       let (qc, c, q, y) =
         (if result \<noteq> 0 then
            let qc = year sdiv QC_YEARS;
                year = year smod QC_YEARS;
                c = year sdiv C_YEARS;
                year = year smod C_YEARS;
                q = year sdiv Q_YEARS;
                y = year smod Q_YEARS
            in (qc, c, q, y)
          else (0, 0, 0, 0));
       let offs =
         (if result \<noteq> 0
          then (qc * QC_DAYS) + (c * C_DAYS) + (q * Q_DAYS) + (y * Y_DAYS)
          else 0);
       offs \<leftarrow> (if result \<noteq> 0 then dateToOffset_loop 0 month offs else Some offs);
       let offs = (if result \<noteq> 0 then offs + dayofmonth else offs);
       let offs = (if result \<noteq> 0 then offs - DAY_OFFSET else offs);
       let result =
         (if result \<noteq> 0 \<and> (offs < 0 \<or> offs > GRCAL_DAY_MAX) then 0 else result);
       let pOffs = (if result \<noteq> 0 then store pOffs offs else pOffs);
       Some (result, pOffs)
     }"

section \<open>grcal_weekday\<close>

definition grcal_weekday :: "int \<Rightarrow> int option" where
  "grcal_weekday offs =
     (if offs < 0 \<or> offs > GRCAL_DAY_MAX then None
      else
        let offs = (if offs < FIRST_MONDAY then offs + WEEK_LENGTH else offs)
        in Some (((offs - FIRST_MONDAY) smod WEEK_LENGTH) + 1))"


section \<open>The same code with 32-bit arithmetic\<close>

text \<open>
  \<^verbatim>\<open>int\<close> and \<^verbatim>\<open>int32_t\<close> are 32 bits wide.  To say what the machine computes, the
  functions are embedded a second time with the result of every addition, subtraction,
  multiplication, division and remainder of the source passed through an overflow
  policy \<open>ov\<close>: \<open>Some\<close> is the exact arithmetic of the sections above, \<open>wrap32\<close> is
  two's complement wrap-around to 32 bits, and \<open>within B\<close> stops (with \<open>None\<close>) at the
  first result whose magnitude exceeds \<open>B\<close>.  Comparisons and the conversions between
  \<^verbatim>\<open>int\<close> and \<^verbatim>\<open>int32_t\<close> do not compute, and monthLength does no arithmetic.
\<close>

type_synonym overflow = "int \<Rightarrow> int option"

definition wrap32 :: overflow where
  "wrap32 x = Some (signed_take_bit 31 x)"

definition within :: "int \<Rightarrow> overflow" where
  "within B x = (if - B \<le> x \<and> x \<le> B then Some x else None)"

definition isLeapYear_ov :: "overflow \<Rightarrow> int \<Rightarrow> int option" where
  "isLeapYear_ov ov y =
     (if y < 1 then None
      else do {
        let leapyear = 0;
        r400 \<leftarrow> ov (y smod 400);
        let leapyear = (if r400 = 0 then 1 else leapyear);
        r4 \<leftarrow> ov (y smod 4);
        leapyear \<leftarrow>
          (if r4 = 0 then do {
             r100 \<leftarrow> ov (y smod 100);
             Some (if r100 \<noteq> 0 then 1 else leapyear)
           } else Some leapyear);
        Some leapyear
      })"

partial_function (option) offsetToDate_loop_ov ::
  "overflow \<Rightarrow> int \<Rightarrow> int \<Rightarrow> (int \<times> int) option" where
  "offsetToDate_loop_ov ov month d =
     (if d > 0 then
        (case monthLength month of
           None \<Rightarrow> None
         | Some ml \<Rightarrow>
             if ml = 0 \<or> d < ml then Some (month, d)
             else do {
               month \<leftarrow> ov (month + 1);
               d \<leftarrow> ov (d - ml);
               offsetToDate_loop_ov ov month d
             })
      else Some (month, d))"

declare offsetToDate_loop_ov.simps [code]

definition grcal_offsetToDate_ov ::
  "overflow \<Rightarrow> int \<Rightarrow> int ptr \<Rightarrow> int ptr \<Rightarrow> int ptr \<Rightarrow> (int ptr \<times> int ptr \<times> int ptr) option"
  where
  "grcal_offsetToDate_ov ov offs pYear pMonth pDayOfMonth =
     (if offs < 0 \<or> offs > GRCAL_DAY_MAX then None
      else do {
        offs \<leftarrow> ov (offs + DAY_OFFSET);
        qc \<leftarrow> ov (offs sdiv QC_DAYS);
        offs \<leftarrow> ov (offs smod QC_DAYS);
        c \<leftarrow> ov (offs sdiv C_DAYS);
        offs \<leftarrow> ov (offs smod C_DAYS);
        q \<leftarrow> ov (offs sdiv Q_DAYS);
        offs \<leftarrow> ov (offs smod Q_DAYS);
        y \<leftarrow> ov (offs sdiv Y_DAYS);
        offs \<leftarrow> ov (offs smod Y_DAYS);
        let d = offs;
        let (c, q, y, d) =
          (if c = QC_C_COUNT
           then (QC_C_COUNT - 1, C_Q_COUNT - 1, Q_Y_COUNT - 1, Y_LEAP_DAYS - 1)
           else (c, q, y, d));
        let (y, d) =
          (if y = Q_Y_COUNT then (Q_Y_COUNT - 1, Y_LEAP_DAYS - 1) else (y, d));
        t1 \<leftarrow> ov (qc * QC_YEARS);
        t2 \<leftarrow> ov (c * C_YEARS);
        t3 \<leftarrow> ov (t1 + t2);
        t4 \<leftarrow> ov (q * Q_YEARS);
        t5 \<leftarrow> ov (t3 + t4);
        t6 \<leftarrow> ov (t5 + y);
        year \<leftarrow> ov (t6 + BASE_YEAR);
        (month, d) \<leftarrow> offsetToDate_loop_ov ov 0 d;
        day \<leftarrow> ov (d + 1);
        month \<leftarrow> ov (month + MONTH_OFFSET);
        (month, year) \<leftarrow>
          (if month \<ge> MONTH_COUNT then do {
             month \<leftarrow> ov (month - MONTH_COUNT);
             year \<leftarrow> ov (year + 1);
             Some (month, year)
           } else Some (month, year));
        month \<leftarrow> ov (month + 1);
        Some (store pYear year, store pMonth month, store pDayOfMonth day)
      })"

partial_function (option) dateToOffset_loop_ov ::
  "overflow \<Rightarrow> int \<Rightarrow> int \<Rightarrow> int \<Rightarrow> int option" where
  "dateToOffset_loop_ov ov x month offs =
     (if x < month then
        (case monthLength x of
           None \<Rightarrow> None
         | Some ml \<Rightarrow> do {
             offs \<leftarrow> ov (offs + ml);
             x \<leftarrow> ov (x + 1);
             dateToOffset_loop_ov ov x month offs
           })
      else Some offs)"

declare dateToOffset_loop_ov.simps [code]

definition grcal_dateToOffset_ov ::
  "overflow \<Rightarrow> int ptr \<Rightarrow> int \<Rightarrow> int \<Rightarrow> int \<Rightarrow> (int \<times> int ptr) option" where
  "grcal_dateToOffset_ov ov pOffs year month dayofmonth =
     do {
       let result = (1::int);
       let result =
         (if year \<le> BASE_YEAR \<or> month < 1 \<or> dayofmonth < 1 then 0 else result);
       let result =
         (if result \<noteq> 0 \<and> (year > MAX_YEAR \<or> month > MONTH_COUNT) then 0 else result);
       dayofmonth \<leftarrow> (if result \<noteq> 0 then ov (dayofmonth - 1) else Some dayofmonth);
       (year, month) \<leftarrow>
         (if result \<noteq> 0 then do {
            month \<leftarrow> ov (month - 1);
            month \<leftarrow> ov (month - MONTH_OFFSET);
            if month < 0 then do {
              year \<leftarrow> ov (year - 1);
              month \<leftarrow> ov (month + MONTH_COUNT);
              Some (year, month)
            } else Some (year, month)
          } else Some (year, month));
       result \<leftarrow>
         (if result \<noteq> 0 then do {
            month_len \<leftarrow> monthLength month;
            month_len \<leftarrow>
              (if month_len = 0 then do {
                 year1 \<leftarrow> ov (year + 1);
                 leap \<leftarrow> isLeapYear_ov ov year1;
                 Some (if leap \<noteq> 0 then LEAP_MONTH_LENGTH else NONLEAP_MONTH_LENGTH)
               } else Some month_len);
            Some (if dayofmonth \<ge> month_len then 0 else result)
          } else Some result);
       year \<leftarrow> (if result \<noteq> 0 then ov (year - BASE_YEAR) else Some year);
       (qc, c, q, y) \<leftarrow>
         (if result \<noteq> 0 then do {
            qc \<leftarrow> ov (year sdiv QC_YEARS);
            year \<leftarrow> ov (year smod QC_YEARS);
            c \<leftarrow> ov (year sdiv C_YEARS);
            year \<leftarrow> ov (year smod C_YEARS);
            q \<leftarrow> ov (year sdiv Q_YEARS);
            y \<leftarrow> ov (year smod Q_YEARS);
            Some (qc, c, q, y)
          } else Some (0, 0, 0, 0));
       offs \<leftarrow>
         (if result \<noteq> 0 then do {
            t1 \<leftarrow> ov (qc * QC_DAYS);
            t2 \<leftarrow> ov (c * C_DAYS);
            t3 \<leftarrow> ov (t1 + t2);
            t4 \<leftarrow> ov (q * Q_DAYS);
            t5 \<leftarrow> ov (t3 + t4);
            t6 \<leftarrow> ov (y * Y_DAYS);
            ov (t5 + t6)
          } else Some 0);
       offs \<leftarrow> (if result \<noteq> 0 then dateToOffset_loop_ov ov 0 month offs else Some offs);
       offs \<leftarrow> (if result \<noteq> 0 then ov (offs + dayofmonth) else Some offs);
       offs \<leftarrow> (if result \<noteq> 0 then ov (offs - DAY_OFFSET) else Some offs);
       let result =
         (if result \<noteq> 0 \<and> (offs < 0 \<or> offs > GRCAL_DAY_MAX) then 0 else result);
       let pOffs = (if result \<noteq> 0 then store pOffs offs else pOffs);
       Some (result, pOffs)
     }"

section \<open>The calendar as the specification words it\<close>

text \<open>
  These definitions follow the specification, not the code; the theorems below compare the
  code with them.  \<open>spec_leap\<close> is the leap rule, \<open>spec_month_length\<close> the length of a
  January-based month of a January-based year, \<open>spec_valid_date\<close> the validation
  conditions of the composition, and \<open>spec_offset\<close> its steps 3 to 11 (the offset it
  computes for a date that passed the checks).
\<close>

definition spec_leap :: "int \<Rightarrow> bool" where
  "spec_leap y =
     (if y mod 400 = 0 then True else if y mod 4 = 0 \<and> y mod 100 \<noteq> 0 then True else False)"

definition spec_month_length :: "int \<Rightarrow> int \<Rightarrow> int" where
  "spec_month_length year month =
     (if month = 2 then (if spec_leap year then 29 else 28)
      else if month = 4 \<or> month = 6 \<or> month = 9 \<or> month = 11 then 30
      else 31)"

definition spec_valid_date :: "int \<Rightarrow> int \<Rightarrow> int \<Rightarrow> bool" where
  "spec_valid_date year month day =
     (1200 < year \<and> year \<le> 9999 \<and> 1 \<le> month \<and> month \<le> 12 \<and>
      1 \<le> day \<and> day \<le> spec_month_length year month)"

datatype month_kind = Long | Short | Variable

definition spec_pattern :: "month_kind list" where
  "spec_pattern =
     [Long, Short, Long, Short, Long, Long, Short, Long, Short, Long, Long, Variable]"

fun kind_days :: "month_kind \<Rightarrow> int" where
  "kind_days Long = 31"
| "kind_days Short = 30"
| "kind_days Variable = 0"

definition spec_days_before :: "int \<Rightarrow> int" where
  "spec_days_before m = sum_list (map kind_days (take (nat m) spec_pattern))"

definition spec_offset :: "int \<Rightarrow> int \<Rightarrow> int \<Rightarrow> int" where
  "spec_offset year month day =
     (let d0 = day - 1;
          m' = month - 3;
          (year, m') = (if m' < 0 then (year - 1, m' + 12) else (year, m'));
          yo = year - 1200;
          qc = yo div 400; r = yo mod 400;
          c = r div 100; r = r mod 100;
          q = r div 4; y = r mod 4
      in qc * 146097 + c * 36524 + q * 1461 + y * 365 + spec_days_before m' + d0 - 139750)"

section \<open>Auxiliary facts\<close>

subsection \<open>Truncating division on non-negative operands\<close>

lemma sdiv_pos_pos: "0 \<le> a \<Longrightarrow> 0 < b \<Longrightarrow> (a::int) sdiv b = a div b"
  by (simp add: signed_divide_int_def sgn_if)

lemma smod_pos_pos: "0 \<le> a \<Longrightarrow> 0 < b \<Longrightarrow> (a::int) smod b = a mod b"
  by (simp add: smod_mod_positive)

lemma sdiv_unique:
  "a = b * k + r \<Longrightarrow> 0 \<le> r \<Longrightarrow> r < b \<Longrightarrow> 0 \<le> k \<Longrightarrow> (a::int) sdiv b = k"
proof -
  assume h: "a = b * k + r" "0 \<le> r" "r < b" "0 \<le> k"
  then have "0 \<le> a" "0 < b" by auto
  then have "a sdiv b = a div b" by (rule sdiv_pos_pos)
  also have "a div b = k" using h by (simp add: int_div_pos_eq)
  finally show ?thesis .
qed

lemma smod_unique:
  "a = b * k + r \<Longrightarrow> 0 \<le> r \<Longrightarrow> r < b \<Longrightarrow> 0 \<le> k \<Longrightarrow> (a::int) smod b = r"
proof -
  assume h: "a = b * k + r" "0 \<le> r" "r < b" "0 \<le> k"
  then have "0 \<le> a" "0 < b" by auto
  then have "a smod b = a mod b" by (rule smod_pos_pos)
  also have "a mod b = r" using h by (simp add: int_mod_pos_eq)
  finally show ?thesis .
qed

subsection \<open>The month pattern and the two loops\<close>

lemma monthLength_values:
  "monthLength 0 = Some 31" "monthLength 1 = Some 30" "monthLength 2 = Some 31"
  "monthLength 3 = Some 30" "monthLength 4 = Some 31" "monthLength 5 = Some 31"
  "monthLength 6 = Some 30" "monthLength 7 = Some 31" "monthLength 8 = Some 30"
  "monthLength 9 = Some 31" "monthLength 10 = Some 31" "monthLength 11 = Some 0"
  by (simp_all add: monthLength_def m_pattern_def Let_def nth_Cons')

lemma month_index_cases:
  "0 \<le> i \<Longrightarrow> i < 12 \<Longrightarrow>
     (i::int) = 0 \<or> i = 1 \<or> i = 2 \<or> i = 3 \<or> i = 4 \<or> i = 5 \<or> i = 6 \<or> i = 7 \<or> i = 8 \<or> i = 9 \<or> i = 10 \<or> i = 11"
  by arith

lemma loop11: "offsetToDate_loop 11 d = Some (11, d)"
  by (subst offsetToDate_loop.simps) (simp add: monthLength_values)
lemma loop10: "offsetToDate_loop 10 d = (if d < 31 then Some (10, d) else Some (11, d - 31))"
  by (subst offsetToDate_loop.simps) (simp add: monthLength_values loop11)
lemma loop9: "offsetToDate_loop 9 d = (if d < 31 then Some (9, d) else offsetToDate_loop 10 (d - 31))"
  by (subst offsetToDate_loop.simps) (simp add: monthLength_values loop10)
lemma loop8: "offsetToDate_loop 8 d = (if d < 30 then Some (8, d) else offsetToDate_loop 9 (d - 30))"
  by (subst offsetToDate_loop.simps) (simp add: monthLength_values loop9)
lemma loop7: "offsetToDate_loop 7 d = (if d < 31 then Some (7, d) else offsetToDate_loop 8 (d - 31))"
  by (subst offsetToDate_loop.simps) (simp add: monthLength_values loop8)
lemma loop6: "offsetToDate_loop 6 d = (if d < 30 then Some (6, d) else offsetToDate_loop 7 (d - 30))"
  by (subst offsetToDate_loop.simps) (simp add: monthLength_values loop7)
lemma loop5: "offsetToDate_loop 5 d = (if d < 31 then Some (5, d) else offsetToDate_loop 6 (d - 31))"
  by (subst offsetToDate_loop.simps) (simp add: monthLength_values loop6)
lemma loop4: "offsetToDate_loop 4 d = (if d < 31 then Some (4, d) else offsetToDate_loop 5 (d - 31))"
  by (subst offsetToDate_loop.simps) (simp add: monthLength_values loop5)
lemma loop3: "offsetToDate_loop 3 d = (if d < 30 then Some (3, d) else offsetToDate_loop 4 (d - 30))"
  by (subst offsetToDate_loop.simps) (simp add: monthLength_values loop4)
lemma loop2: "offsetToDate_loop 2 d = (if d < 31 then Some (2, d) else offsetToDate_loop 3 (d - 31))"
  by (subst offsetToDate_loop.simps) (simp add: monthLength_values loop3)
lemma loop1: "offsetToDate_loop 1 d = (if d < 30 then Some (1, d) else offsetToDate_loop 2 (d - 30))"
  by (subst offsetToDate_loop.simps) (simp add: monthLength_values loop2)
lemma loop0: "offsetToDate_loop 0 d = (if d < 31 then Some (0, d) else offsetToDate_loop 1 (d - 31))"
  by (subst offsetToDate_loop.simps) (simp add: monthLength_values loop1)

lemmas loops = loop0 loop1 loop2 loop3 loop4 loop5 loop6 loop7 loop8 loop9 loop10 loop11

lemma offsetToDate_loop_0:
  "offsetToDate_loop 0 d =
     Some (if d < 31 then (0, d) else if d < 61 then (1, d - 31) else if d < 92 then (2, d - 61)
      else if d < 122 then (3, d - 92) else if d < 153 then (4, d - 122)
      else if d < 184 then (5, d - 153) else if d < 214 then (6, d - 184)
      else if d < 245 then (7, d - 214) else if d < 275 then (8, d - 245)
      else if d < 306 then (9, d - 275) else if d < 337 then (10, d - 306)
      else (11, d - 337))"
  by (simp add: loops)

lemma spec_days_before_values:
  "spec_days_before 0 = 0" "spec_days_before 1 = 31" "spec_days_before 2 = 61"
  "spec_days_before 3 = 92" "spec_days_before 4 = 122" "spec_days_before 5 = 153"
  "spec_days_before 6 = 184" "spec_days_before 7 = 214" "spec_days_before 8 = 245"
  "spec_days_before 9 = 275" "spec_days_before 10 = 306" "spec_days_before 11 = 337"
  by (simp_all add: spec_days_before_def spec_pattern_def)

lemma dateToOffset_loop_done: "dateToOffset_loop x x offs = Some offs"
  by (subst dateToOffset_loop.simps) simp

lemma dateToOffset_loop_step:
  "x < month \<Longrightarrow> dateToOffset_loop x month offs =
     (case monthLength x of None \<Rightarrow> None | Some ml \<Rightarrow> dateToOffset_loop (x + 1) month (offs + ml))"
  by (subst dateToOffset_loop.simps) simp

lemma dateToOffset_loop_0:
  "0 \<le> m \<Longrightarrow> m < 12 \<Longrightarrow> dateToOffset_loop 0 m offs = Some (offs + spec_days_before m)"
  using month_index_cases [of m]
  by (auto simp: dateToOffset_loop_step dateToOffset_loop_done monthLength_values
        spec_days_before_values)

subsection \<open>The composition against the specification\<close>

lemma isLeapYear_spec:
  "1 \<le> y \<Longrightarrow> isLeapYear y = Some (if spec_leap y then 1 else 0)"
  by (simp add: isLeapYear_def spec_leap_def Let_def smod_pos_pos)

lemma year_chain:
  assumes "0 \<le> (yo::int)"
  shows "yo sdiv 400 = yo div 400" "yo smod 400 = yo mod 400"
    "(yo mod 400) sdiv 100 = (yo mod 400) div 100"
    "(yo mod 400) smod 100 = (yo mod 400) mod 100"
    "((yo mod 400) mod 100) sdiv 4 = ((yo mod 400) mod 100) div 4"
    "((yo mod 400) mod 100) smod 4 = ((yo mod 400) mod 100) mod 4"
  using assms by (simp_all add: sdiv_pos_pos smod_pos_pos)

lemma dateToOffset_reject:
  "\<not> (1200 < year \<and> year \<le> 9999 \<and> 1 \<le> month \<and> month \<le> 12 \<and> 1 \<le> day) \<Longrightarrow>
     grcal_dateToOffset p year month day = Some (0, p)"
  by (auto simp: grcal_dateToOffset_def Let_def)

lemma spec_offset_sdiv:
  assumes "1200 < year"
  shows "spec_offset year month day =
     (let d0 = day - 1;
          m' = month - 3;
          (year, m') = (if m' < 0 then (year - 1, m' + 12) else (year, m'));
          yo = year - 1200;
          qc = yo sdiv 400; r = yo smod 400;
          c = r sdiv 100; r = r smod 100;
          q = r sdiv 4; y = r smod 4
      in qc * 146097 + c * 36524 + q * 1461 + y * 365 + spec_days_before m' + d0 - 139750)"
proof (cases "month - 3 < 0")
  case True
  from assms have "0 \<le> year - 1 - 1200" by simp
  from year_chain [OF this] True show ?thesis
    by (simp only: spec_offset_def Let_def if_True split_conv)
next
  case False
  from assms have "0 \<le> year - 1200" by simp
  from year_chain [OF this] False show ?thesis
    by (simp only: spec_offset_def Let_def if_False split_conv)
qed

lemma month_cases:
  "1 \<le> i \<Longrightarrow> i \<le> 12 \<Longrightarrow>
     (i::int) = 1 \<or> i = 2 \<or> i = 3 \<or> i = 4 \<or> i = 5 \<or> i = 6 \<or> i = 7 \<or> i = 8 \<or> i = 9 \<or> i = 10 \<or> i = 11 \<or> i = 12"
  by arith

lemma dateToOffset_accept:
  assumes "1200 < year" "year \<le> 9999" "1 \<le> day" "1 \<le> month" "month \<le> 12"
  shows "grcal_dateToOffset p year month day =
     Some (if day \<le> spec_month_length year month \<and> 0 \<le> spec_offset year month day \<and>
              spec_offset year month day \<le> 3074323
           then (1, store p (spec_offset year month day)) else (0, p))"
  using month_cases [OF assms(4,5)] assms(1-3)
  apply -
  apply (elim disjE)
  apply (simp_all add: grcal_dateToOffset_def Let_def monthLength_values dateToOffset_loop_0 spec_days_before_values spec_offset_sdiv spec_month_length_def isLeapYear_spec)
  done
lemma dateToOffset_spec:
  "grcal_dateToOffset p year month day =
     Some (if spec_valid_date year month day \<and> 0 \<le> spec_offset year month day \<and>
              spec_offset year month day \<le> 3074323
           then (1, store p (spec_offset year month day)) else (0, p))"
proof (cases "1200 < year \<and> year \<le> 9999 \<and> 1 \<le> month \<and> month \<le> 12 \<and> 1 \<le> day")
  case True
  then show ?thesis
    by (simp add: dateToOffset_accept spec_valid_date_def)
next
  case False
  then have "\<not> spec_valid_date year month day"
    by (auto simp: spec_valid_date_def)
  with False show ?thesis
    by (simp add: dateToOffset_reject)
qed

subsection \<open>Dates in March-based coordinates\<close>

text \<open>
  The proofs work in the coordinates of the algorithm: a March-based year
  \<open>1200 + 400 qc + 100 c + 4 q + y\<close> with \<open>c \<le> 3\<close>, \<open>q \<le> 24\<close>, \<open>y \<le> 3\<close>, a March-based
  month index \<open>m\<close> and a zero-based day \<open>d'\<close> of that month.  The day count from
  1200-03-01 is then \<open>146097 qc + 36524 c + 1461 q + 365 y + spec_days_before m + d'\<close>.
  The year's last day, number 365, exists only when \<open>y = 3\<close> and, for \<open>q = 24\<close>, \<open>c = 3\<close>:
  the leap day at the end of a quad year, absent at the end of a century unless that
  also ends a quad century.  Both functions are computed in these coordinates.
\<close>

lemma year_digits:
  assumes "0 \<le> qc" "0 \<le> c" "c \<le> 3" "0 \<le> q" "q \<le> 24" "0 \<le> y" "y \<le> 3"
    and yo: "yo = 400 * qc + 100 * c + 4 * q + (y::int)"
  shows "yo div 400 = qc" "yo mod 400 div 100 = c" "yo mod 400 mod 100 div 4 = q"
    "yo mod 400 mod 100 mod 4 = y"
proof -
  show 1: "yo div 400 = qc"
    by (rule int_div_pos_eq [of yo 400 qc "100 * c + 4 * q + y"]) (use assms in simp_all)
  have 2: "yo mod 400 = 100 * c + 4 * q + y"
    by (rule int_mod_pos_eq [of yo 400 qc "100 * c + 4 * q + y"]) (use assms in simp_all)
  have 3: "(100 * c + 4 * q + y) div 100 = c"
    by (rule int_div_pos_eq [of _ 100 c "4 * q + y"]) (use assms in simp_all)
  have 4: "(100 * c + 4 * q + y) mod 100 = 4 * q + y"
    by (rule int_mod_pos_eq [of _ 100 c "4 * q + y"]) (use assms in simp_all)
  have 5: "(4 * q + y) div 4 = q"
    by (rule int_div_pos_eq [of _ 4 q y]) (use assms in simp_all)
  have 6: "(4 * q + y) mod 4 = y"
    by (rule int_mod_pos_eq [of _ 4 q y]) (use assms in simp_all)
  show "yo mod 400 div 100 = c" by (simp only: 2 3)
  show "yo mod 400 mod 100 div 4 = q" by (simp only: 2 4 5)
  show "yo mod 400 mod 100 mod 4 = y" by (simp only: 2 4 6)
qed

lemma spec_offset_canon:
  assumes "0 \<le> qc" "0 \<le> c" "c \<le> 3" "0 \<le> q" "q \<le> 24" "0 \<le> y" "y \<le> 3"
    and m: "0 \<le> m" "m \<le> 11"
    and yo: "yo = 400 * qc + 100 * c + 4 * q + y"
    and year: "year = 1200 + yo + (if 10 \<le> m then 1 else 0)"
    and month: "month = (if 10 \<le> m then m - 9 else m + 3)"
  shows "spec_offset year month day =
           146097 * qc + 36524 * c + 1461 * q + 365 * y + spec_days_before m + day - 139751"
proof -
  note dg = year_digits [OF assms(1-7) yo]
  show ?thesis
  proof (cases "10 \<le> m")
    case True
    with m year month have "month - 3 < 0" "year - 1 - 1200 = yo" "month - 3 + 12 = m" by simp_all
    then show ?thesis
      by (simp add: spec_offset_def Let_def dg)
  next
    case False
    with m year month have "\<not> month - 3 < 0" "year - 1200 = yo" "month - 3 = m" by simp_all
    then show ?thesis
      by (simp add: spec_offset_def Let_def dg)
  qed
qed

lemma loop_canon:
  assumes m: "0 \<le> m" "m \<le> 11" and d': "0 \<le> d'"
    and len: "m < 11 \<Longrightarrow> d' < spec_days_before (m + 1) - spec_days_before m"
  shows "offsetToDate_loop 0 (spec_days_before m + d') = Some (m, d')"
proof -
  from m have "m = 0 \<or> m = 1 \<or> m = 2 \<or> m = 3 \<or> m = 4 \<or> m = 5 \<or> m = 6 \<or> m = 7 \<or> m = 8
    \<or> m = 9 \<or> m = 10 \<or> m = 11"
    by (intro month_index_cases) simp_all
  with d' len show ?thesis
    by (elim disjE) (simp_all add: offsetToDate_loop_0 spec_days_before_values)
qed

lemma days_before_bounds:
  assumes m: "0 \<le> m" "m \<le> 11"
  shows "0 \<le> spec_days_before m" "spec_days_before m \<le> 337"
    "m \<le> 10 \<Longrightarrow> spec_days_before (m + 1) \<le> spec_days_before 11"
    "m \<le> 9 \<Longrightarrow> spec_days_before (m + 1) \<le> 306" "10 \<le> m \<Longrightarrow> 306 \<le> spec_days_before m"
    "m = 11 \<Longrightarrow> spec_days_before m = 337"
proof -
  from m have "m = 0 \<or> m = 1 \<or> m = 2 \<or> m = 3 \<or> m = 4 \<or> m = 5 \<or> m = 6 \<or> m = 7 \<or> m = 8
    \<or> m = 9 \<or> m = 10 \<or> m = 11"
    by (intro month_index_cases) simp_all
  then show "0 \<le> spec_days_before m" "spec_days_before m \<le> 337"
    "m \<le> 10 \<Longrightarrow> spec_days_before (m + 1) \<le> spec_days_before 11"
    "m \<le> 9 \<Longrightarrow> spec_days_before (m + 1) \<le> 306" "10 \<le> m \<Longrightarrow> 306 \<le> spec_days_before m"
    "m = 11 \<Longrightarrow> spec_days_before m = 337"
    by (auto simp: spec_days_before_values)
qed

lemma offsetToDate_calc:
  assumes offs: "0 \<le> offs" "offs \<le> 3074323"
    and a: "(offs + 139750) sdiv 146097 = qc" "(offs + 139750) smod 146097 = r1"
      "r1 sdiv 36524 = c" "r1 smod 36524 = r2" "r2 sdiv 1461 = q" "r2 smod 1461 = r3"
      "r3 sdiv 365 = y" "r3 smod 365 = d"
    and ne: "c \<noteq> 4" "y \<noteq> 4"
    and loop: "offsetToDate_loop 0 d = Some (m, d')"
  shows "grcal_offsetToDate offs pY pM pD =
     Some (store pY (qc * 400 + c * 100 + q * 4 + y + 1200 + (if 10 \<le> m then 1 else 0)),
           store pM (if 10 \<le> m then m - 9 else 3 + m), store pD (d' + 1))"
  using offs ne
  by (simp add: grcal_offsetToDate_def a Let_def loop)

lemma offsetToDate_calc_quad:
  assumes offs: "0 \<le> offs" "offs \<le> 3074323"
    and a: "(offs + 139750) sdiv 146097 = qc" "(offs + 139750) smod 146097 = r1"
      "r1 sdiv 36524 = c" "r1 smod 36524 = r2" "r2 sdiv 1461 = q" "r2 smod 1461 = 1460"
    and ne: "c \<noteq> 4"
  shows "grcal_offsetToDate offs pY pM pD =
     Some (store pY (qc * 400 + c * 100 + q * 4 + 3 + 1200 + 1), store pM 2, store pD 29)"
  using offs ne
  by (simp add: grcal_offsetToDate_def a Let_def offsetToDate_loop_0)

lemma offsetToDate_calc_qc:
  assumes offs: "0 \<le> offs" "offs \<le> 3074323"
    and a: "(offs + 139750) sdiv 146097 = qc" "(offs + 139750) smod 146097 = 146096"
  shows "grcal_offsetToDate offs pY pM pD =
     Some (store pY (qc * 400 + 3 * 100 + 24 * 4 + 3 + 1200 + 1), store pM 2, store pD 29)"
  using offs
  by (simp add: grcal_offsetToDate_def a Let_def offsetToDate_loop_0)

lemma offsetToDate_canon:
  assumes dg: "0 \<le> qc" "0 \<le> c" "c \<le> 3" "0 \<le> q" "q \<le> 24" "0 \<le> y" "y \<le> 3"
    and m: "0 \<le> m" "m \<le> 11" and d': "0 \<le> d'"
    and len: "m < 11 \<Longrightarrow> d' < spec_days_before (m + 1) - spec_days_before m"
    and feb: "m = 11 \<Longrightarrow> d' \<le> 27 \<or> (d' = 28 \<and> y = 3 \<and> (q = 24 \<longrightarrow> c = 3))"
    and n: "offs + 139750 =
              146097 * qc + 36524 * c + 1461 * q + 365 * y + spec_days_before m + d'"
    and range: "0 \<le> offs" "offs \<le> 3074323"
  shows "grcal_offsetToDate offs pY pM pD =
     Some (store pY (qc * 400 + c * 100 + q * 4 + y + 1200 + (if 10 \<le> m then 1 else 0)),
           store pM (if 10 \<le> m then m - 9 else 3 + m), store pD (d' + 1))"
proof -
  define d where "d = spec_days_before m + d'"
  note db = days_before_bounds [OF m]
  have d0: "0 \<le> d" using db(1) d' by (simp add: d_def)
  have d_le: "d \<le> 365" and d365: "d = 365 \<Longrightarrow> m = 11 \<and> d' = 28"
  proof -
    show "d \<le> 365"
    proof (cases "m = 11")
      case True
      with feb db(6) show ?thesis by (auto simp: d_def)
    next
      case False
      with m have "m < 11" "m \<le> 10" by simp_all
      with len db(3) show ?thesis by (simp add: d_def spec_days_before_values)
    qed
    show "m = 11 \<and> d' = 28" if "d = 365"
    proof (cases "m = 11")
      case True
      with that db(6) show ?thesis by (simp add: d_def)
    next
      case False
      with m have "m < 11" "m \<le> 10" by simp_all
      with len db(3) that show ?thesis by (simp add: d_def spec_days_before_values)
    qed
  qed
  have loop: "offsetToDate_loop 0 d = Some (m, d')"
    unfolding d_def using m d' len by (rule loop_canon)
  have n': "offs + 139750 = 146097 * qc + 36524 * c + 1461 * q + 365 * y + d"
    using n by (simp add: d_def)
  consider (gen) "d \<le> 364" | (quad) "d = 365" "q \<noteq> 24" | (qcend) "d = 365" "q = 24"
    using d_le by linarith
  then show ?thesis
  proof cases
    case gen
    define r1 where "r1 = 36524 * c + 1461 * q + 365 * y + d"
    define r2 where "r2 = 1461 * q + 365 * y + d"
    define r3 where "r3 = 365 * y + d"
    have a: "(offs + 139750) sdiv 146097 = qc" "(offs + 139750) smod 146097 = r1"
      "r1 sdiv 36524 = c" "r1 smod 36524 = r2" "r2 sdiv 1461 = q" "r2 smod 1461 = r3"
      "r3 sdiv 365 = y" "r3 smod 365 = d"
    proof -
      have b3: "0 \<le> r3" "r3 < 1461" using dg d0 gen by (simp_all add: r3_def)
      have b2: "0 \<le> r2" "r2 < 36524" using dg d0 gen by (simp_all add: r2_def)
      have b1: "0 \<le> r1" "r1 < 146097" using dg d0 gen by (simp_all add: r1_def)
      have e1: "offs + 139750 = 146097 * qc + r1" using n' by (simp add: r1_def)
      have e2: "r1 = 36524 * c + r2" by (simp add: r1_def r2_def)
      have e3: "r2 = 1461 * q + r3" by (simp add: r2_def r3_def)
      have e4: "r3 = 365 * y + d" by (simp add: r3_def)
      have d4: "d < 365" using gen by simp
      show "(offs + 139750) sdiv 146097 = qc" using e1 b1 dg(1) by (rule sdiv_unique)
      show "(offs + 139750) smod 146097 = r1" using e1 b1 dg(1) by (rule smod_unique)
      show "r1 sdiv 36524 = c" using e2 b2 dg(2) by (rule sdiv_unique)
      show "r1 smod 36524 = r2" using e2 b2 dg(2) by (rule smod_unique)
      show "r2 sdiv 1461 = q" using e3 b3 dg(4) by (rule sdiv_unique)
      show "r2 smod 1461 = r3" using e3 b3 dg(4) by (rule smod_unique)
      show "r3 sdiv 365 = y" using e4 d0 d4 dg(6) by (rule sdiv_unique)
      show "r3 smod 365 = d" using e4 d0 d4 dg(6) by (rule smod_unique)
    qed
    have ne: "c \<noteq> 4" "y \<noteq> 4" using dg by simp_all
    from range a ne loop show ?thesis by (rule offsetToDate_calc)
  next
    case quad
    from d365 [OF quad(1)] feb have md: "m = 11" "d' = 28" "y = 3" by simp_all
    define r1 where "r1 = 36524 * c + 1461 * q + 1460"
    define r2 where "r2 = 1461 * q + 1460"
    have a: "(offs + 139750) sdiv 146097 = qc" "(offs + 139750) smod 146097 = r1"
      "r1 sdiv 36524 = c" "r1 smod 36524 = r2" "r2 sdiv 1461 = q" "r2 smod 1461 = 1460"
    proof -
      have q23: "q \<le> 23" using dg quad by simp
      have b2: "0 \<le> r2" "r2 < 36524" using dg q23 by (simp_all add: r2_def)
      have b1: "0 \<le> r1" "r1 < 146097" using dg q23 by (simp_all add: r1_def)
      have e1: "offs + 139750 = 146097 * qc + r1" using n' quad md by (simp add: r1_def)
      have e2: "r1 = 36524 * c + r2" by (simp add: r1_def r2_def)
      have e3: "r2 = 1461 * q + 1460" by (simp add: r2_def)
      show "(offs + 139750) sdiv 146097 = qc" using e1 b1 dg(1) by (rule sdiv_unique)
      show "(offs + 139750) smod 146097 = r1" using e1 b1 dg(1) by (rule smod_unique)
      show "r1 sdiv 36524 = c" using e2 b2 dg(2) by (rule sdiv_unique)
      show "r1 smod 36524 = r2" using e2 b2 dg(2) by (rule smod_unique)
      show "r2 sdiv 1461 = q" using e3 _ _ dg(4) by (rule sdiv_unique) simp_all
      show "r2 smod 1461 = 1460" using e3 _ _ dg(4) by (rule smod_unique) simp_all
    qed
    have ne: "c \<noteq> 4" using dg by simp
    from offsetToDate_calc_quad [OF range a ne, of pY pM pD] md show ?thesis by simp
  next
    case qcend
    from d365 [OF qcend(1)] feb qcend have md: "m = 11" "d' = 28" "y = 3" "c = 3" by simp_all
    have e1: "offs + 139750 = 146097 * qc + 146096" using n' qcend md by simp
    have a: "(offs + 139750) sdiv 146097 = qc" "(offs + 139750) smod 146097 = 146096"
    proof -
      show "(offs + 139750) sdiv 146097 = qc" using e1 _ _ dg(1) by (rule sdiv_unique) simp_all
      show "(offs + 139750) smod 146097 = 146096" using e1 _ _ dg(1) by (rule smod_unique) simp_all
    qed
    from offsetToDate_calc_qc [OF range a, of pY pM pD] md qcend show ?thesis by simp
  qed
qed

subsection \<open>Every day count and every year has coordinates\<close>

lemma divmod_obtain:
  assumes "0 \<le> (a::int)" "0 < b"
  obtains k r where "a = b * k + r" "0 \<le> k" "0 \<le> r" "r < b"
proof
  show "a = b * (a div b) + a mod b" by simp
  show "0 \<le> a div b" using assms by (simp add: pos_imp_zdiv_nonneg_iff)
  show "0 \<le> a mod b" using assms by simp
  show "a mod b < b" using assms by simp
qed

lemma year_digits_exist:
  assumes "0 \<le> (yo::int)"
  obtains qc c q y where "0 \<le> qc" "0 \<le> c" "c \<le> 3" "0 \<le> q" "q \<le> 24" "0 \<le> y" "y \<le> 3"
    "yo = 400 * qc + 100 * c + 4 * q + y"
proof -
  from assms obtain qc r where 1: "yo = 400 * qc + r" "0 \<le> qc" "0 \<le> r" "r < 400"
    by (rule divmod_obtain [of yo 400]) simp_all
  from 1(3) obtain c r' where 2: "r = 100 * c + r'" "0 \<le> c" "0 \<le> r'" "r' < 100"
    by (rule divmod_obtain [of r 100]) simp_all
  from 2(3) obtain q y where 3: "r' = 4 * q + y" "0 \<le> q" "0 \<le> y" "y < 4"
    by (rule divmod_obtain [of r' 4]) simp_all
  have "c \<le> 3" using 1 2 by linarith
  moreover have "q \<le> 24" using 2 3 by linarith
  moreover have "y \<le> 3" using 3 by simp
  moreover have "yo = 400 * qc + 100 * c + 4 * q + y" using 1 2 3 by simp
  ultimately show thesis using 1 2 3 that by blast
qed

lemma day_count_exist:
  assumes "0 \<le> (n::int)"
  obtains qc c q y d where "0 \<le> qc" "0 \<le> c" "c \<le> 3" "0 \<le> q" "q \<le> 24" "0 \<le> y" "y \<le> 3"
    "0 \<le> d" "d \<le> 365" "d = 365 \<longrightarrow> y = 3 \<and> (q = 24 \<longrightarrow> c = 3)"
    "n = 146097 * qc + 36524 * c + 1461 * q + 365 * y + d"
proof -
  from assms obtain qc r1 where 1: "n = 146097 * qc + r1" "0 \<le> qc" "0 \<le> r1" "r1 < 146097"
    by (rule divmod_obtain [of n 146097]) simp_all
  from 1(3) obtain c0 r2 where 2: "r1 = 36524 * c0 + r2" "0 \<le> c0" "0 \<le> r2" "r2 < 36524"
    by (rule divmod_obtain [of r1 36524]) simp_all
  from 2(3) obtain q0 r3 where 3: "r2 = 1461 * q0 + r3" "0 \<le> q0" "0 \<le> r3" "r3 < 1461"
    by (rule divmod_obtain [of r2 1461]) simp_all
  from 3(3) obtain y0 d0 where 4: "r3 = 365 * y0 + d0" "0 \<le> y0" "0 \<le> d0" "d0 < 365"
    by (rule divmod_obtain [of r3 365]) simp_all
  have c4: "c0 \<le> 4" using 1 2 by linarith
  have q24: "q0 \<le> 24" using 2 3 by linarith
  have y4: "y0 \<le> 4" using 3 4 by linarith
  show thesis
  proof (cases "c0 = 4")
    case True
    with 1 2 have "r2 = 0" by linarith
    with 1 2 True have "n = 146097 * qc + 36524 * 3 + 1461 * 24 + 365 * 3 + 365" by simp
    with 1(2) show thesis by (intro that [of qc 3 24 3 365]) simp_all
  next
    case False
    with c4 have c3: "c0 \<le> 3" by simp
    show thesis
    proof (cases "y0 = 4")
      case True
      with 3 4 have d0: "d0 = 0" by linarith
      have "q0 \<noteq> 24" using 2 3 4 True by linarith
      moreover have "n = 146097 * qc + 36524 * c0 + 1461 * q0 + 365 * 3 + 365"
        using 1 2 3 4 True d0 by simp
      ultimately show thesis using 1(2) 2(2) c3 3(2) q24
        by (intro that [of qc c0 q0 3 365]) simp_all
    next
      case False
      with y4 have "y0 \<le> 3" by simp
      moreover have "n = 146097 * qc + 36524 * c0 + 1461 * q0 + 365 * y0 + d0"
        using 1 2 3 4 by simp
      ultimately show thesis using 1(2) 2(2) c3 3(2) q24 4
        by (intro that [of qc c0 q0 y0 d0]) simp_all
    qed
  qed
qed

lemma month_day_exist:
  assumes "0 \<le> (d::int)" "d \<le> 365"
  obtains m d' where "0 \<le> m" "m \<le> 11" "0 \<le> d'"
    "m < 11 \<longrightarrow> d' < spec_days_before (m + 1) - spec_days_before m"
    "m = 11 \<longrightarrow> d' \<le> 28 \<and> (d' = 28 \<longrightarrow> d = 365)"
    "d = spec_days_before m + d'"
proof -
  consider "d < 31" | "31 \<le> d" "d < 61" | "61 \<le> d" "d < 92" | "92 \<le> d" "d < 122"
    | "122 \<le> d" "d < 153" | "153 \<le> d" "d < 184" | "184 \<le> d" "d < 214" | "214 \<le> d" "d < 245"
    | "245 \<le> d" "d < 275" | "275 \<le> d" "d < 306" | "306 \<le> d" "d < 337" | "337 \<le> d"
    by linarith
  then show thesis
  proof cases
    case 1 with assms show thesis by (intro that [of 0 d]) (simp_all add: spec_days_before_values)
  next
    case 2 then show thesis by (intro that [of 1 "d - 31"]) (simp_all add: spec_days_before_values)
  next
    case 3 then show thesis by (intro that [of 2 "d - 61"]) (simp_all add: spec_days_before_values)
  next
    case 4 then show thesis by (intro that [of 3 "d - 92"]) (simp_all add: spec_days_before_values)
  next
    case 5 then show thesis by (intro that [of 4 "d - 122"]) (simp_all add: spec_days_before_values)
  next
    case 6 then show thesis by (intro that [of 5 "d - 153"]) (simp_all add: spec_days_before_values)
  next
    case 7 then show thesis by (intro that [of 6 "d - 184"]) (simp_all add: spec_days_before_values)
  next
    case 8 then show thesis by (intro that [of 7 "d - 214"]) (simp_all add: spec_days_before_values)
  next
    case 9 then show thesis by (intro that [of 8 "d - 245"]) (simp_all add: spec_days_before_values)
  next
    case 10 then show thesis by (intro that [of 9 "d - 275"]) (simp_all add: spec_days_before_values)
  next
    case 11 then show thesis by (intro that [of 10 "d - 306"]) (simp_all add: spec_days_before_values)
  next
    case 12 with assms show thesis
      by (intro that [of 11 "d - 337"]) (simp_all add: spec_days_before_values)
  qed
qed

lemma leap_canon:
  assumes "0 \<le> qc" "0 \<le> c" "c \<le> 3" "0 \<le> q" "q \<le> 24" "0 \<le> y" "y \<le> 3"
    and z: "z = 1201 + (400 * qc + 100 * c + 4 * q + y)"
  shows "spec_leap z \<longleftrightarrow> y = 3 \<and> (q = 24 \<longrightarrow> c = 3)"
proof -
  have m4: "z mod 400 mod 4 = z mod 4" and m100: "z mod 400 mod 100 = z mod 100"
    by (simp_all add: mod_mod_cancel)
  consider (a) "y \<le> 2" | (b) "y = 3" "q \<le> 23" | (c) "y = 3" "q = 24" "c \<le> 2"
    | (d) "y = 3" "q = 24" "c = 3"
    using assms by linarith
  then show ?thesis
  proof cases
    case a
    have "z mod 4 = y + 1"
      by (rule int_mod_pos_eq [of z 4 "300 + 100 * qc + 25 * c + q"]) (use assms a in simp_all)
    with assms have 4: "z mod 4 \<noteq> 0" by simp
    with m4 have "z mod 400 \<noteq> 0" by auto
    with 4 a show ?thesis by (simp add: spec_leap_def)
  next
    case b
    have "z mod 100 = 4 * (q + 1)"
      by (rule int_mod_pos_eq [of z 100 "12 + 4 * qc + c"]) (use assms b in simp_all)
    with assms have 100: "z mod 100 \<noteq> 0" by simp
    with m100 have 400: "z mod 400 \<noteq> 0" by auto
    have "z mod 4 = 0"
      by (rule int_mod_pos_eq [of z 4 "301 + 100 * qc + 25 * c + q"]) (use assms b in simp_all)
    with 100 400 b show ?thesis by (simp add: spec_leap_def)
  next
    case c
    have "z mod 400 = 100 * (c + 1)"
      by (rule int_mod_pos_eq [of z 400 "3 + qc"]) (use assms c in simp_all)
    with assms have 400: "z mod 400 \<noteq> 0" by simp
    have "z mod 100 = 0"
      by (rule int_mod_pos_eq [of z 100 "13 + 4 * qc + c"]) (use assms c in simp_all)
    with 400 c show ?thesis by (simp add: spec_leap_def)
  next
    case d
    have "z mod 400 = 0"
      by (rule int_mod_pos_eq [of z 400 "4 + qc"]) (use assms d in simp_all)
    with d show ?thesis by (simp add: spec_leap_def)
  qed
qed

lemma month_length_canon:
  assumes "0 \<le> m" "m \<le> 11"
  shows "spec_month_length year (if 10 \<le> m then m - 9 else 3 + m) =
     (if m = 11 then (if spec_leap year then 29 else 28)
      else spec_days_before (m + 1) - spec_days_before m)"
proof -
  from assms have "m = 0 \<or> m = 1 \<or> m = 2 \<or> m = 3 \<or> m = 4 \<or> m = 5 \<or> m = 6 \<or> m = 7 \<or> m = 8
    \<or> m = 9 \<or> m = 10 \<or> m = 11"
    by (intro month_index_cases) simp_all
  then show ?thesis
    by (elim disjE) (simp_all add: spec_month_length_def spec_days_before_values)
qed

text \<open>Decomposition undoes the offset of a valid date.\<close>

lemma offsetToDate_spec_offset:
  assumes valid: "spec_valid_date year month day"
    and range: "0 \<le> spec_offset year month day" "spec_offset year month day \<le> 3074323"
  shows "grcal_offsetToDate (spec_offset year month day) pY pM pD =
           Some (store pY year, store pM month, store pD day)"
proof -
  from valid have yr: "1200 < year" "year \<le> 9999" and mo: "1 \<le> month" "month \<le> 12"
    and dy: "1 \<le> day" "day \<le> spec_month_length year month"
    by (simp_all add: spec_valid_date_def)
  define m where "m = (if month < 3 then month + 9 else month - 3)"
  define Y where "Y = (if month < 3 then year - 1 else year)"
  have m: "0 \<le> m" "m \<le> 11" using mo by (simp_all add: m_def)
  have month: "month = (if 10 \<le> m then m - 9 else 3 + m)" using mo by (simp add: m_def)
  have "0 \<le> Y - 1200" using yr by (simp add: Y_def)
  then obtain qc c q y where dg: "0 \<le> qc" "0 \<le> c" "c \<le> 3" "0 \<le> q" "q \<le> 24" "0 \<le> y" "y \<le> 3"
    and yo: "Y - 1200 = 400 * qc + 100 * c + 4 * q + y"
    by (rule year_digits_exist)
  have year: "year = 1200 + (Y - 1200) + (if 10 \<le> m then 1 else 0)"
    using mo by (simp add: m_def Y_def)
  have month': "month = (if 10 \<le> m then m - 9 else m + 3)" using month by simp
  have off: "spec_offset year month day =
      146097 * qc + 36524 * c + 1461 * q + 365 * y + spec_days_before m + day - 139751"
    using dg m yo year month' by (rule spec_offset_canon)
  have len: "day - 1 < spec_days_before (m + 1) - spec_days_before m" if "m < 11"
    using dy(2) that month_length_canon [OF m, of year] month by simp
  have feb: "day - 1 \<le> 27 \<or> (day - 1 = 28 \<and> y = 3 \<and> (q = 24 \<longrightarrow> c = 3))" if "m = 11"
  proof -
    from that year yo have z: "year = 1201 + (400 * qc + 100 * c + 4 * q + y)" by simp
    from dy(2) that month_length_canon [OF m, of year] month
    have "day \<le> (if spec_leap year then 29 else 28)" by simp
    with leap_canon [OF dg z] show ?thesis by (auto split: if_splits)
  qed
  have n: "spec_offset year month day + 139750 =
      146097 * qc + 36524 * c + 1461 * q + 365 * y + spec_days_before m + (day - 1)"
    using off by simp
  have d': "0 \<le> day - 1" using dy by simp
  have "grcal_offsetToDate (spec_offset year month day) pY pM pD =
     Some (store pY (qc * 400 + c * 100 + q * 4 + y + 1200 + (if 10 \<le> m then 1 else 0)),
           store pM (if 10 \<le> m then m - 9 else 3 + m), store pD (day - 1 + 1))"
    using dg m d' len feb n range by (rule offsetToDate_canon)
  moreover have "qc * 400 + c * 100 + q * 4 + y + 1200 + (if 10 \<le> m then 1 else 0) = year"
    using year yo by simp
  ultimately show ?thesis using month by simp
qed

text \<open>Every offset in range is the offset of a valid date.\<close>

lemma spec_offset_onto:
  assumes "0 \<le> offs" "offs \<le> 3074323"
  obtains year month day where "spec_valid_date year month day" "1582 \<le> year"
    "spec_offset year month day = offs"
proof -
  from assms have "0 \<le> offs + 139750" by simp
  then obtain qc c q y d where dg: "0 \<le> qc" "0 \<le> c" "c \<le> 3" "0 \<le> q" "q \<le> 24" "0 \<le> y" "y \<le> 3"
    and d: "0 \<le> d" "d \<le> 365" and d365: "d = 365 \<longrightarrow> y = 3 \<and> (q = 24 \<longrightarrow> c = 3)"
    and n: "offs + 139750 = 146097 * qc + 36524 * c + 1461 * q + 365 * y + d"
    by (rule day_count_exist)
  from d obtain m d' where m: "0 \<le> m" "m \<le> 11" and d': "0 \<le> d'"
    and len: "m < 11 \<longrightarrow> d' < spec_days_before (m + 1) - spec_days_before m"
    and feb: "m = 11 \<longrightarrow> d' \<le> 28 \<and> (d' = 28 \<longrightarrow> d = 365)"
    and dm: "d = spec_days_before m + d'"
    by (rule month_day_exist)
  define yo where "yo = 400 * qc + 100 * c + 4 * q + y"
  define year where "year = 1200 + yo + (if 10 \<le> m then 1 else 0)"
  define month where "month = (if 10 \<le> m then m - 9 else m + 3)"
  define day where "day = d' + 1"
  note db = days_before_bounds [OF m]
  have "spec_offset year month day =
      146097 * qc + 36524 * c + 1461 * q + 365 * y + spec_days_before m + day - 139751"
    using dg m yo_def year_def month_def by (rule spec_offset_canon)
  with n dm have off: "spec_offset year month day = offs" by (simp add: day_def)
  have lo: "1582 \<le> year"
  proof (rule ccontr)
    assume "\<not> 1582 \<le> year"
    then have yo: "yo \<le> 381" by (simp add: year_def split: if_splits)
    with dg have "qc = 0" unfolding yo_def by linarith
    with yo dg d have "146097 * qc + 36524 * c + 1461 * q + 365 * y + d < 139750"
      unfolding yo_def by linarith
    with n assms show False by simp
  qed
  have qc21: "qc \<le> 21" using n assms dg d by linarith
  have hi: "year \<le> 9999"
  proof (rule ccontr)
    assume a: "\<not> year \<le> 9999"
    have "yo \<le> 8799" using dg qc21 unfolding yo_def by linarith
    with a have yo: "yo = 8799" and m10: "10 \<le> m" by (simp_all add: year_def split: if_splits)
    from yo dg qc21 have "qc = 21" "c = 3" "q = 24" "y = 3" unfolding yo_def by linarith+
    moreover from m10 have "306 \<le> spec_days_before m" by (rule db(5))
    ultimately show False using n dm d' assms by simp
  qed
  have mo: "1 \<le> month" "month \<le> 12" using m by (simp_all add: month_def)
  have dy: "1 \<le> day" using d' by (simp add: day_def)
  have month': "month = (if 10 \<le> m then m - 9 else 3 + m)" by (simp add: month_def)
  have "day \<le> spec_month_length year month"
  proof (cases "m = 11")
    case True
    then have z: "year = 1201 + (400 * qc + 100 * c + 4 * q + y)" by (simp add: year_def yo_def)
    from feb True d365 have "d' \<le> 27 \<or> (d' = 28 \<and> y = 3 \<and> (q = 24 \<longrightarrow> c = 3))" by auto
    with leap_canon [OF dg z] have "day \<le> (if spec_leap year then 29 else 28)"
      by (auto simp: day_def)
    with True month_length_canon [OF m, of year] month' show ?thesis by simp
  next
    case False
    with m have "m < 11" by simp
    from len this False month_length_canon [OF m, of year] month' show ?thesis
      by (simp add: day_def)
  qed
  with lo hi mo dy have "spec_valid_date year month day" by (simp add: spec_valid_date_def)
  then show thesis using lo off by (rule that)
qed

lemma dateToOffset_success:
  "grcal_dateToOffset p year month day = Some (1, p') \<longleftrightarrow>
     spec_valid_date year month day \<and> 0 \<le> spec_offset year month day \<and>
     spec_offset year month day \<le> 3074323 \<and> p' = store p (spec_offset year month day)"
  by (auto simp: dateToOffset_spec)

lemma spec_offset_examples:
  "spec_offset 2000 2 29 = 152443" "spec_offset 1582 10 14 = - 1" "spec_offset 1582 10 15 = 0"
  "spec_offset 9999 12 31 = 3074323"
  by (simp_all add: spec_offset_def Let_def spec_days_before_values)

lemma spec_leap_examples: "spec_leap 2000" "\<not> spec_leap 1900" "\<not> spec_leap 2023"
  by (simp_all add: spec_leap_def)

subsection \<open>Overflow policies that are exact on a range\<close>

lemma wrap32_exact: "- 2147483647 \<le> x \<Longrightarrow> x \<le> 2147483647 \<Longrightarrow> wrap32 x = Some x"
  by (simp add: wrap32_def signed_take_bit_int_eq_self)

lemma within_exact: "- B \<le> x \<Longrightarrow> x \<le> B \<Longrightarrow> within B x = Some x"
  by (simp add: within_def)

lemma isLeapYear_ov_eq:
  assumes ov: "\<And>x. - B \<le> x \<Longrightarrow> x \<le> B \<Longrightarrow> ov x = Some x" and B: "3214073 \<le> B"
    and y: "1 \<le> y"
  shows "isLeapYear_ov ov y = isLeapYear y"
proof -
  have b: "0 \<le> y smod 400" "y smod 400 < 400" "0 \<le> y smod 4" "y smod 4 < 4"
    "0 \<le> y smod 100" "y smod 100 < 100"
    using y by (simp_all add: smod_pos_pos)
  have "ov (y smod 400) = Some (y smod 400)" "ov (y smod 4) = Some (y smod 4)"
    "ov (y smod 100) = Some (y smod 100)"
    using b B by (simp_all add: ov)
  then show ?thesis
    using y by (simp add: isLeapYear_ov_def isLeapYear_def Let_def)
qed

lemma monthLength_range:
  assumes "monthLength i = Some ml"
  shows "0 \<le> i \<and> i \<le> 11 \<and> (ml = 0 \<or> ml = 30 \<or> ml = 31) \<and> (ml = 0 \<longleftrightarrow> i = 11)"
proof -
  from assms have "0 \<le> i" "i < 12" by (auto simp: monthLength_def split: if_splits)
  then have "i = 0 \<or> i = 1 \<or> i = 2 \<or> i = 3 \<or> i = 4 \<or> i = 5 \<or> i = 6 \<or> i = 7 \<or> i = 8
      \<or> i = 9 \<or> i = 10 \<or> i = 11"
    by (rule month_index_cases)
  with assms show ?thesis by (elim disjE) (simp_all add: monthLength_values)
qed

lemma offsetToDate_loop_ov_eq:
  assumes ov: "\<And>x. - B \<le> x \<Longrightarrow> x \<le> B \<Longrightarrow> ov x = Some x" and B: "3214073 \<le> B"
  shows "0 \<le> d \<Longrightarrow> d \<le> B \<Longrightarrow> offsetToDate_loop_ov ov month d = offsetToDate_loop month d"
proof (induction month d rule: offsetToDate_loop.induct)
  case (1 month d)
  show ?case
  proof (cases "d > 0 \<and> (\<exists>ml. monthLength month = Some ml \<and> \<not> (ml = 0 \<or> d < ml))")
    case True
    then obtain ml where ml: "monthLength month = Some ml" "ml \<noteq> 0" "ml \<le> d" and d: "d > 0"
      by auto
    from monthLength_range [OF ml(1)] ml(2)
    have r: "0 \<le> month" "month \<le> 10" "0 < ml" "ml \<le> 31" by auto
    have o: "ov (month + 1) = Some (month + 1)" "ov (d - ml) = Some (d - ml)"
      using r ml "1.prems" B by (simp_all add: ov)
    have "offsetToDate_loop_ov ov (month + 1) (d - ml) = offsetToDate_loop (month + 1) (d - ml)"
      using d ml r "1.prems" by (intro "1.IH") simp_all
    then show ?thesis
      using d ml o
      by (subst offsetToDate_loop_ov.simps, subst offsetToDate_loop.simps) simp
  next
    case False
    then show ?thesis
      by (subst offsetToDate_loop_ov.simps, subst offsetToDate_loop.simps)
         (auto split: option.splits)
  qed
qed

lemma dateToOffset_loop_ov_done: "dateToOffset_loop_ov ov x x offs = Some offs"
  by (subst dateToOffset_loop_ov.simps) simp

lemma dateToOffset_loop_ov_step:
  "x < month \<Longrightarrow> dateToOffset_loop_ov ov x month offs =
     (case monthLength x of None \<Rightarrow> None
      | Some ml \<Rightarrow> ov (offs + ml) \<bind> (\<lambda>offs. ov (x + 1) \<bind> (\<lambda>x. dateToOffset_loop_ov ov x month offs)))"
  by (subst dateToOffset_loop_ov.simps) simp

lemma dateToOffset_loop_ov_0:
  assumes ov: "\<And>x. - B \<le> x \<Longrightarrow> x \<le> B \<Longrightarrow> ov x = Some x" and B: "3214073 \<le> B"
    and m: "0 \<le> m" "m < 12" and offs: "0 \<le> offs" "offs + spec_days_before m \<le> B"
  shows "dateToOffset_loop_ov ov 0 m offs = Some (offs + spec_days_before m)"
  using month_index_cases [OF m] offs B
  apply -
  apply (elim disjE)
  apply (simp_all add: dateToOffset_loop_ov_step dateToOffset_loop_ov_done monthLength_values
      spec_days_before_values ov)
  done

lemma offsetToDate_ov_calc:
  assumes ov: "\<And>x. - B \<le> x \<Longrightarrow> x \<le> B \<Longrightarrow> ov x = Some x" and B: "3214073 \<le> B"
    and offs: "0 \<le> offs" "offs \<le> 3074323"
    and a: "(offs + 139750) sdiv 146097 = qc" "(offs + 139750) smod 146097 = r1"
      "r1 sdiv 36524 = c" "r1 smod 36524 = r2" "r2 sdiv 1461 = q" "r2 smod 1461 = r3"
      "r3 sdiv 365 = y" "r3 smod 365 = d"
    and bounds: "0 \<le> qc" "qc \<le> 21" "0 \<le> r1" "r1 < 146097" "0 \<le> c" "c \<le> 3"
      "0 \<le> r2" "r2 < 36524" "0 \<le> q" "q \<le> 24" "0 \<le> r3" "r3 < 1461" "0 \<le> y" "y \<le> 3"
      "0 \<le> d" "d < 365"
    and loop: "offsetToDate_loop 0 d = Some (m, d')"
    and md: "0 \<le> m" "m \<le> 11" "0 \<le> d'" "d' \<le> 365"
  shows "grcal_offsetToDate_ov ov offs pY pM pD =
     Some (store pY (qc * 400 + c * 100 + q * 4 + y + 1200 + (if 10 \<le> m then 1 else 0)),
           store pM (if 10 \<le> m then m - 9 else 3 + m), store pD (d' + 1))"
proof -
  have "d \<le> B" using bounds(16) B by linarith
  with ov B bounds(15) have "offsetToDate_loop_ov ov 0 d = offsetToDate_loop 0 d"
    by (rule offsetToDate_loop_ov_eq)
  with loop have loop_ov: "offsetToDate_loop_ov ov 0 d = Some (m, d')" by simp
  have ne: "c \<noteq> 4" "y \<noteq> 4" using bounds by simp_all
  show ?thesis
    using offs B bounds md ne
    by (simp add: grcal_offsetToDate_ov_def a Let_def loop_ov ov)
qed

lemma offsetToDate_loop_ov_leap:
  assumes ov: "\<And>x. - B \<le> x \<Longrightarrow> x \<le> B \<Longrightarrow> ov x = Some x" and B: "3214073 \<le> B"
  shows "offsetToDate_loop_ov ov 0 365 = Some (11, 28)"
proof -
  have "offsetToDate_loop_ov ov 0 365 = offsetToDate_loop 0 365"
    using ov B by (rule offsetToDate_loop_ov_eq) (use B in simp_all)
  then show ?thesis by (simp add: offsetToDate_loop_0)
qed

lemma offsetToDate_ov_calc_quad:
  assumes ov: "\<And>x. - B \<le> x \<Longrightarrow> x \<le> B \<Longrightarrow> ov x = Some x" and B: "3214073 \<le> B"
    and offs: "0 \<le> offs" "offs \<le> 3074323"
    and a: "(offs + 139750) sdiv 146097 = qc" "(offs + 139750) smod 146097 = r1"
      "r1 sdiv 36524 = c" "r1 smod 36524 = r2" "r2 sdiv 1461 = q" "r2 smod 1461 = 1460"
    and bounds: "0 \<le> qc" "qc \<le> 21" "0 \<le> r1" "r1 < 146097" "0 \<le> c" "c \<le> 3"
      "0 \<le> r2" "r2 < 36524" "0 \<le> q" "q \<le> 24"
  shows "grcal_offsetToDate_ov ov offs pY pM pD =
     Some (store pY (qc * 400 + c * 100 + q * 4 + 3 + 1200 + 1), store pM 2, store pD 29)"
proof -
  note loop_ov = offsetToDate_loop_ov_leap [of B ov, OF ov B]
  have ne: "c \<noteq> 4" using bounds by simp
  show ?thesis
    using offs B bounds ne
    by (simp add: grcal_offsetToDate_ov_def a Let_def loop_ov ov)
qed

lemma offsetToDate_ov_calc_qc:
  assumes ov: "\<And>x. - B \<le> x \<Longrightarrow> x \<le> B \<Longrightarrow> ov x = Some x" and B: "3214073 \<le> B"
    and offs: "0 \<le> offs" "offs \<le> 3074323"
    and a: "(offs + 139750) sdiv 146097 = qc" "(offs + 139750) smod 146097 = 146096"
    and bounds: "0 \<le> qc" "qc \<le> 21"
  shows "grcal_offsetToDate_ov ov offs pY pM pD =
     Some (store pY (qc * 400 + 3 * 100 + 24 * 4 + 3 + 1200 + 1), store pM 2, store pD 29)"
proof -
  note loop_ov = offsetToDate_loop_ov_leap [of B ov, OF ov B]
  show ?thesis
    using offs B bounds
    by (simp add: grcal_offsetToDate_ov_def a Let_def loop_ov ov)
qed

lemma offsetToDate_ov_canon:
  assumes ov: "\<And>x. - B \<le> x \<Longrightarrow> x \<le> B \<Longrightarrow> ov x = Some x" and B: "3214073 \<le> B"
    and dg: "0 \<le> qc" "0 \<le> c" "c \<le> 3" "0 \<le> q" "q \<le> 24" "0 \<le> y" "y \<le> 3"
    and m: "0 \<le> m" "m \<le> 11" and d': "0 \<le> d'"
    and len: "m < 11 \<Longrightarrow> d' < spec_days_before (m + 1) - spec_days_before m"
    and feb: "m = 11 \<Longrightarrow> d' \<le> 27 \<or> (d' = 28 \<and> y = 3 \<and> (q = 24 \<longrightarrow> c = 3))"
    and n: "offs + 139750 =
              146097 * qc + 36524 * c + 1461 * q + 365 * y + spec_days_before m + d'"
    and range: "0 \<le> offs" "offs \<le> 3074323"
  shows "grcal_offsetToDate_ov ov offs pY pM pD =
     Some (store pY (qc * 400 + c * 100 + q * 4 + y + 1200 + (if 10 \<le> m then 1 else 0)),
           store pM (if 10 \<le> m then m - 9 else 3 + m), store pD (d' + 1))"
proof -
  define d where "d = spec_days_before m + d'"
  note db = days_before_bounds [OF m]
  have d0: "0 \<le> d" using db(1) d' by (simp add: d_def)
  have d_le: "d \<le> 365" and d365: "d = 365 \<Longrightarrow> m = 11 \<and> d' = 28"
  proof -
    show "d \<le> 365"
    proof (cases "m = 11")
      case True
      with feb db(6) show ?thesis by (auto simp: d_def)
    next
      case False
      with m have "m < 11" "m \<le> 10" by simp_all
      with len db(3) show ?thesis by (simp add: d_def spec_days_before_values)
    qed
    show "m = 11 \<and> d' = 28" if "d = 365"
    proof (cases "m = 11")
      case True
      with that db(6) show ?thesis by (simp add: d_def)
    next
      case False
      with m have "m < 11" "m \<le> 10" by simp_all
      with len db(3) that show ?thesis by (simp add: d_def spec_days_before_values)
    qed
  qed
  have d'365: "d' \<le> 365" using d_le db(1) by (simp add: d_def)
  have loop: "offsetToDate_loop 0 d = Some (m, d')"
    unfolding d_def using m d' len by (rule loop_canon)
  have n': "offs + 139750 = 146097 * qc + 36524 * c + 1461 * q + 365 * y + d"
    using n by (simp add: d_def)
  have qc21: "qc \<le> 21" using n' range dg d0 by linarith
  consider (gen) "d \<le> 364" | (quad) "d = 365" "q \<noteq> 24" | (qcend) "d = 365" "q = 24"
    using d_le by linarith
  then show ?thesis
  proof cases
    case gen
    define r1 where "r1 = 36524 * c + 1461 * q + 365 * y + d"
    define r2 where "r2 = 1461 * q + 365 * y + d"
    define r3 where "r3 = 365 * y + d"
    have b3: "0 \<le> r3" "r3 < 1461" using dg d0 gen by (simp_all add: r3_def)
    have b2: "0 \<le> r2" "r2 < 36524" using dg d0 gen by (simp_all add: r2_def)
    have b1: "0 \<le> r1" "r1 < 146097" using dg d0 gen by (simp_all add: r1_def)
    have d4: "d < 365" using gen by simp
    have a: "(offs + 139750) sdiv 146097 = qc" "(offs + 139750) smod 146097 = r1"
      "r1 sdiv 36524 = c" "r1 smod 36524 = r2" "r2 sdiv 1461 = q" "r2 smod 1461 = r3"
      "r3 sdiv 365 = y" "r3 smod 365 = d"
    proof -
      have e1: "offs + 139750 = 146097 * qc + r1" using n' by (simp add: r1_def)
      have e2: "r1 = 36524 * c + r2" by (simp add: r1_def r2_def)
      have e3: "r2 = 1461 * q + r3" by (simp add: r2_def r3_def)
      have e4: "r3 = 365 * y + d" by (simp add: r3_def)
      show "(offs + 139750) sdiv 146097 = qc" using e1 b1 dg(1) by (rule sdiv_unique)
      show "(offs + 139750) smod 146097 = r1" using e1 b1 dg(1) by (rule smod_unique)
      show "r1 sdiv 36524 = c" using e2 b2 dg(2) by (rule sdiv_unique)
      show "r1 smod 36524 = r2" using e2 b2 dg(2) by (rule smod_unique)
      show "r2 sdiv 1461 = q" using e3 b3 dg(4) by (rule sdiv_unique)
      show "r2 smod 1461 = r3" using e3 b3 dg(4) by (rule smod_unique)
      show "r3 sdiv 365 = y" using e4 d0 d4 dg(6) by (rule sdiv_unique)
      show "r3 smod 365 = d" using e4 d0 d4 dg(6) by (rule smod_unique)
    qed
    from ov B range a dg(1) qc21 b1 dg(2,3) b2 dg(4,5) b3 dg(6,7) d0 d4 loop m d' d'365
    show ?thesis by (rule offsetToDate_ov_calc)
  next
    case quad
    from d365 [OF quad(1)] feb have md: "m = 11" "d' = 28" "y = 3" by simp_all
    define r1 where "r1 = 36524 * c + 1461 * q + 1460"
    define r2 where "r2 = 1461 * q + 1460"
    have q23: "q \<le> 23" using dg quad by simp
    have b2: "0 \<le> r2" "r2 < 36524" using dg q23 by (simp_all add: r2_def)
    have b1: "0 \<le> r1" "r1 < 146097" using dg q23 by (simp_all add: r1_def)
    have a: "(offs + 139750) sdiv 146097 = qc" "(offs + 139750) smod 146097 = r1"
      "r1 sdiv 36524 = c" "r1 smod 36524 = r2" "r2 sdiv 1461 = q" "r2 smod 1461 = 1460"
    proof -
      have e1: "offs + 139750 = 146097 * qc + r1" using n' quad md by (simp add: r1_def)
      have e2: "r1 = 36524 * c + r2" by (simp add: r1_def r2_def)
      have e3: "r2 = 1461 * q + 1460" by (simp add: r2_def)
      show "(offs + 139750) sdiv 146097 = qc" using e1 b1 dg(1) by (rule sdiv_unique)
      show "(offs + 139750) smod 146097 = r1" using e1 b1 dg(1) by (rule smod_unique)
      show "r1 sdiv 36524 = c" using e2 b2 dg(2) by (rule sdiv_unique)
      show "r1 smod 36524 = r2" using e2 b2 dg(2) by (rule smod_unique)
      show "r2 sdiv 1461 = q" using e3 _ _ dg(4) by (rule sdiv_unique) simp_all
      show "r2 smod 1461 = 1460" using e3 _ _ dg(4) by (rule smod_unique) simp_all
    qed
    from offsetToDate_ov_calc_quad [OF ov B range a dg(1) qc21 b1 dg(2,3) b2 dg(4,5),
        of pY pM pD] md
    show ?thesis by simp
  next
    case qcend
    from d365 [OF qcend(1)] feb qcend have md: "m = 11" "d' = 28" "y = 3" "c = 3" by simp_all
    have e1: "offs + 139750 = 146097 * qc + 146096" using n' qcend md by simp
    have a: "(offs + 139750) sdiv 146097 = qc" "(offs + 139750) smod 146097 = 146096"
    proof -
      show "(offs + 139750) sdiv 146097 = qc" using e1 _ _ dg(1) by (rule sdiv_unique) simp_all
      show "(offs + 139750) smod 146097 = 146096" using e1 _ _ dg(1) by (rule smod_unique) simp_all
    qed
    from offsetToDate_ov_calc_qc [OF ov B range a dg(1) qc21, of pY pM pD] md qcend
    show ?thesis by simp
  qed
qed

text \<open>On offsets in range, a policy that is exact up to 3214073 changes nothing.\<close>

lemma offsetToDate_ov_eq:
  assumes ov: "\<And>x. - B \<le> x \<Longrightarrow> x \<le> B \<Longrightarrow> ov x = Some x" and B: "3214073 \<le> B"
    and range: "0 \<le> offs" "offs \<le> 3074323"
  shows "grcal_offsetToDate_ov ov offs pY pM pD = grcal_offsetToDate offs pY pM pD"
proof -
  from range have "0 \<le> offs + 139750" by simp
  then obtain qc c q y d where dg: "0 \<le> qc" "0 \<le> c" "c \<le> 3" "0 \<le> q" "q \<le> 24" "0 \<le> y" "y \<le> 3"
    and d: "0 \<le> d" "d \<le> 365" and d365: "d = 365 \<longrightarrow> y = 3 \<and> (q = 24 \<longrightarrow> c = 3)"
    and n: "offs + 139750 = 146097 * qc + 36524 * c + 1461 * q + 365 * y + d"
    by (rule day_count_exist)
  from d obtain m d' where m: "0 \<le> m" "m \<le> 11" and d': "0 \<le> d'"
    and len: "m < 11 \<longrightarrow> d' < spec_days_before (m + 1) - spec_days_before m"
    and feb: "m = 11 \<longrightarrow> d' \<le> 28 \<and> (d' = 28 \<longrightarrow> d = 365)"
    and dm: "d = spec_days_before m + d'"
    by (rule month_day_exist)
  have len': "m < 11 \<Longrightarrow> d' < spec_days_before (m + 1) - spec_days_before m"
    using len by simp
  have feb': "m = 11 \<Longrightarrow> d' \<le> 27 \<or> (d' = 28 \<and> y = 3 \<and> (q = 24 \<longrightarrow> c = 3))"
    using feb d365 by auto
  have n': "offs + 139750 =
      146097 * qc + 36524 * c + 1461 * q + 365 * y + spec_days_before m + d'"
    using n dm by simp
  have "grcal_offsetToDate_ov ov offs pY pM pD =
     Some (store pY (qc * 400 + c * 100 + q * 4 + y + 1200 + (if 10 \<le> m then 1 else 0)),
           store pM (if 10 \<le> m then m - 9 else 3 + m), store pD (d' + 1))"
    using ov B dg m d' len' feb' n' range by (rule offsetToDate_ov_canon)
  moreover have "grcal_offsetToDate offs pY pM pD =
     Some (store pY (qc * 400 + c * 100 + q * 4 + y + 1200 + (if 10 \<le> m then 1 else 0)),
           store pM (if 10 \<le> m then m - 9 else 3 + m), store pD (d' + 1))"
    using dg m d' len' feb' n' range by (rule offsetToDate_canon)
  ultimately show ?thesis by simp
qed

lemma dateToOffset_ov_reject:
  "\<not> (1200 < year \<and> year \<le> 9999 \<and> 1 \<le> month \<and> month \<le> 12 \<and> 1 \<le> day) \<Longrightarrow>
     grcal_dateToOffset_ov ov p year month day = Some (0, p)"
  by (auto simp: grcal_dateToOffset_ov_def Let_def)

lemma dateToOffset_ov_calc_march:
  assumes ov: "\<And>x. - B \<le> x \<Longrightarrow> x \<le> B \<Longrightarrow> ov x = Some x" and B: "3214073 \<le> B"
    and month: "month = 3 \<or> month = 4 \<or> month = 5 \<or> month = 6 \<or> month = 7 \<or> month = 8 \<or>
       month = 9 \<or> month = 10 \<or> month = 11 \<or> month = 12"
    and Y: "1200 < Y" "Y \<le> 9999"
    and day: "1 \<le> day" "day - 1 \<le> B"
    and a: "Y - 1200 = yo" "yo sdiv 400 = qc" "yo smod 400 = r" "r sdiv 100 = c"
      "r smod 100 = r'" "r' sdiv 4 = q" "r' smod 4 = y"
    and bounds: "0 \<le> yo" "yo \<le> 8799" "0 \<le> qc" "qc \<le> 21" "0 \<le> r" "r < 400" "0 \<le> c" "c \<le> 3"
      "0 \<le> r'" "r' < 100" "0 \<le> q" "q \<le> 24" "0 \<le> y" "y \<le> 3"
    and tight: "day \<le> spec_month_length Y month \<longrightarrow>
       qc * 146097 + c * 36524 + q * 1461 + y * 365 + spec_days_before (month - 3) + day - 1
         \<le> 3214073"
  shows "grcal_dateToOffset_ov ov p Y month day = grcal_dateToOffset p Y month day"
proof (cases "day \<le> spec_month_length Y month")
  case True
  with tight have t: "qc * 146097 + c * 36524 + q * 1461 + y * 365
      + spec_days_before (month - 3) + day - 1 \<le> 3214073"
    by simp
  show ?thesis
    using month Y B day bounds True t
    apply -
    apply (elim disjE)
    apply (simp_all add: grcal_dateToOffset_ov_def grcal_dateToOffset_def Let_def a
        monthLength_values dateToOffset_loop_0 dateToOffset_loop_ov_0 [where B = B] ov
        spec_days_before_values spec_month_length_def)
    done
next
  case False
  show ?thesis
    using month Y B day bounds False
    apply -
    apply (elim disjE)
    apply (simp_all add: grcal_dateToOffset_ov_def grcal_dateToOffset_def Let_def a
        monthLength_values ov spec_month_length_def)
    done
qed

lemma dateToOffset_ov_calc_janfeb:
  assumes ov: "\<And>x. - B \<le> x \<Longrightarrow> x \<le> B \<Longrightarrow> ov x = Some x" and B: "3214073 \<le> B"
    and month: "month = 1 \<or> month = 2"
    and Y: "1200 \<le> Y" "Y < 9999"
    and day: "1 \<le> day" "day - 1 \<le> B"
    and a: "Y - 1200 = yo" "yo sdiv 400 = qc" "yo smod 400 = r" "r sdiv 100 = c"
      "r smod 100 = r'" "r' sdiv 4 = q" "r' smod 4 = y"
    and bounds: "0 \<le> yo" "yo \<le> 8799" "0 \<le> qc" "qc \<le> 21" "0 \<le> r" "r < 400" "0 \<le> c" "c \<le> 3"
      "0 \<le> r'" "r' < 100" "0 \<le> q" "q \<le> 24" "0 \<le> y" "y \<le> 3"
    and tight: "day \<le> spec_month_length (Y + 1) month \<longrightarrow>
       qc * 146097 + c * 36524 + q * 1461 + y * 365 + spec_days_before (month + 9) + day - 1
         \<le> 3214073"
  shows "grcal_dateToOffset_ov ov p (Y + 1) month day = grcal_dateToOffset p (Y + 1) month day"
proof -
  have Y1: "1 \<le> Y + 1" using Y by linarith
  have leap: "isLeapYear_ov ov (Y + 1) = isLeapYear (Y + 1)"
    using ov B Y1 by (rule isLeapYear_ov_eq)
  have leap': "isLeapYear (Y + 1) = Some (if spec_leap (Y + 1) then 1 else 0)"
    using Y1 by (rule isLeapYear_spec)
  show ?thesis
  proof (cases "day \<le> spec_month_length (Y + 1) month")
    case True
    with tight have t: "qc * 146097 + c * 36524 + q * 1461 + y * 365
        + spec_days_before (month + 9) + day - 1 \<le> 3214073"
      by simp
    show ?thesis
      using month Y B day bounds True t
      apply -
      apply (elim disjE)
       apply (simp_all add: grcal_dateToOffset_ov_def grcal_dateToOffset_def Let_def a
          monthLength_values dateToOffset_loop_0 dateToOffset_loop_ov_0 [where B = B] ov
          spec_days_before_values spec_month_length_def leap leap')
      done
  next
    case False
    show ?thesis
      using month Y B day bounds False
      apply -
      apply (elim disjE)
       apply (simp_all add: grcal_dateToOffset_ov_def grcal_dateToOffset_def Let_def a
          monthLength_values ov spec_month_length_def leap leap' split: if_split_asm)
      done
  qed
qed

lemma day_count_bound:
  assumes dg: "0 \<le> qc" "0 \<le> c" "c \<le> 3" "0 \<le> q" "q \<le> 24" "0 \<le> y" "y \<le> 3"
    and yo: "400 * qc + 100 * c + 4 * q + y \<le> 8799"
    and d: "d \<le> 365"
    and last: "400 * qc + 100 * c + 4 * q + y = 8799 \<Longrightarrow> d \<le> 305"
  shows "146097 * qc + 36524 * c + 1461 * q + 365 * y + d \<le> (3214073::int)"
proof -
  have qc21: "qc \<le> 21" using dg yo by linarith
  consider (a) "qc \<le> 20" | (b) "qc = 21" "c \<le> 2" | (c) "qc = 21" "c = 3" "q \<le> 23"
    | (d) "qc = 21" "c = 3" "q = 24" "y \<le> 2" | (e) "qc = 21" "c = 3" "q = 24" "y = 3"
    using qc21 dg by linarith
  then show ?thesis
  proof cases
    case a with dg d show ?thesis by linarith
  next
    case b with dg d show ?thesis by linarith
  next
    case c with dg d show ?thesis by linarith
  next
    case d with dg \<open>d \<le> 365\<close> show ?thesis by linarith
  next
    case e
    then have "400 * qc + 100 * c + 4 * q + y = 8799" by simp
    from last [OF this] e show ?thesis by simp
  qed
qed

lemma year_sdigits:
  assumes "0 \<le> qc" "0 \<le> c" "c \<le> 3" "0 \<le> q" "q \<le> 24" "0 \<le> y" "y \<le> 3"
    and yo: "yo = 400 * qc + 100 * c + 4 * q + (y::int)"
    and r: "r = 100 * c + 4 * q + y" and r': "r' = 4 * q + y"
  shows "yo sdiv 400 = qc" "yo smod 400 = r" "r sdiv 100 = c" "r smod 100 = r'"
    "r' sdiv 4 = q" "r' smod 4 = y"
proof -
  have e1: "yo = 400 * qc + r" by (simp add: yo r)
  have e2: "r = 100 * c + r'" by (simp add: r r')
  have b1: "0 \<le> r" "r < 400" using assms by simp_all
  have b2: "0 \<le> r'" "r' < 100" using assms by simp_all
  have b3: "y < 4" using assms by simp
  show "yo sdiv 400 = qc" using e1 b1 assms(1) by (rule sdiv_unique)
  show "yo smod 400 = r" using e1 b1 assms(1) by (rule smod_unique)
  show "r sdiv 100 = c" using e2 b2 assms(2) by (rule sdiv_unique)
  show "r smod 100 = r'" using e2 b2 assms(2) by (rule smod_unique)
  show "r' sdiv 4 = q" using r' assms(6) b3 assms(4) by (rule sdiv_unique)
  show "r' smod 4 = y" using r' assms(6) b3 assms(4) by (rule smod_unique)
qed

text \<open>
  For any date, a policy that is exact up to 3214073 changes nothing, provided the
  decrement of the day itself is within the policy's bound.
\<close>

lemma dateToOffset_ov_eq:
  assumes ov: "\<And>x. - B \<le> x \<Longrightarrow> x \<le> B \<Longrightarrow> ov x = Some x" and B: "3214073 \<le> B"
    and day: "day - 1 \<le> B"
  shows "grcal_dateToOffset_ov ov p year month day = grcal_dateToOffset p year month day"
proof (cases "1200 < year \<and> year \<le> 9999 \<and> 1 \<le> month \<and> month \<le> 12 \<and> 1 \<le> day")
  case False
  then show ?thesis by (simp add: dateToOffset_ov_reject dateToOffset_reject)
next
  case True
  then have yr: "1200 < year" "year \<le> 9999" and mo: "1 \<le> month" "month \<le> 12"
    and dy: "1 \<le> day"
    by simp_all
  define m where "m = (if month < 3 then month + 9 else month - 3)"
  define Y where "Y = (if month < 3 then year - 1 else year)"
  define yo where "yo = Y - 1200"
  have m: "0 \<le> m" "m \<le> 11" using mo by (simp_all add: m_def)
  have month: "month = (if 10 \<le> m then m - 9 else 3 + m)" using mo by (simp add: m_def)
  have Yb: "1200 \<le> Y" "Y \<le> 9999" using yr by (simp_all add: Y_def)
  have yo0: "0 \<le> yo" and yo_le: "yo \<le> 8799"
    using yr mo by (simp_all add: yo_def Y_def)
  have yo_jf: "yo \<le> 8798" if "10 \<le> m"
    using that yr mo by (simp add: yo_def Y_def m_def split: if_splits)
  from yo0 obtain qc c q y where dg: "0 \<le> qc" "0 \<le> c" "c \<le> 3" "0 \<le> q" "q \<le> 24" "0 \<le> y" "y \<le> 3"
    and yo: "yo = 400 * qc + 100 * c + 4 * q + y"
    by (rule year_digits_exist)
  define r where "r = 100 * c + 4 * q + y"
  define r' where "r' = 4 * q + y"
  note sd = year_sdigits [OF dg yo r_def r'_def]
  have a: "Y - 1200 = yo" by (simp add: yo_def)
  have qc21: "qc \<le> 21" using yo yo_le dg by linarith
  have bounds: "0 \<le> yo" "yo \<le> 8799" "0 \<le> qc" "qc \<le> 21" "0 \<le> r" "r < 400" "0 \<le> c" "c \<le> 3"
      "0 \<le> r'" "r' < 100" "0 \<le> q" "q \<le> 24" "0 \<le> y" "y \<le> 3"
    using yo0 yo_le dg qc21 by (simp_all add: r_def r'_def)
  have tight: "qc * 146097 + c * 36524 + q * 1461 + y * 365 + spec_days_before m + day - 1
      \<le> 3214073" if fit: "day \<le> spec_month_length year month"
  proof -
    note db = days_before_bounds [OF m]
    from fit month_length_canon [OF m, of year] month
    have l: "day \<le> (if m = 11 then (if spec_leap year then 29 else 28)
               else spec_days_before (m + 1) - spec_days_before m)"
      by simp
    have d365: "spec_days_before m + (day - 1) \<le> 365"
    proof (cases "m = 11")
      case True
      with l db(6) show ?thesis by (simp split: if_splits)
    next
      case False
      with m have "m \<le> 10" by simp
      with l False db(3) show ?thesis by (simp add: spec_days_before_values)
    qed
    have d305: "spec_days_before m + (day - 1) \<le> 305"
      if "400 * qc + 100 * c + 4 * q + y = 8799"
    proof -
      from that yo yo_jf have "m \<le> 9" by (cases "10 \<le> m") simp_all
      with l db(4) show ?thesis by simp
    qed
    have "400 * qc + 100 * c + 4 * q + y \<le> 8799" using yo yo_le by simp
    from day_count_bound [OF dg this d365 d305] show ?thesis by (simp add: mult.commute)
  qed
  show ?thesis
  proof (cases "month < 3")
    case True
    with mo have mc: "month = 1 \<or> month = 2" by arith
    from True have year: "year = Y + 1" and mm: "m = month + 9" by (simp_all add: Y_def m_def)
    have Y': "1200 \<le> Y" "Y < 9999" using yr True by (simp_all add: Y_def)
    have t: "day \<le> spec_month_length (Y + 1) month \<longrightarrow>
       qc * 146097 + c * 36524 + q * 1461 + y * 365 + spec_days_before (month + 9) + day - 1
         \<le> 3214073"
      using tight by (simp add: year mm)
    from ov B mc Y' dy day a sd bounds t
    have "grcal_dateToOffset_ov ov p (Y + 1) month day = grcal_dateToOffset p (Y + 1) month day"
      by (rule dateToOffset_ov_calc_janfeb)
    then show ?thesis by (simp add: year)
  next
    case False
    with mo have mc: "month = 3 \<or> month = 4 \<or> month = 5 \<or> month = 6 \<or> month = 7 \<or> month = 8 \<or>
       month = 9 \<or> month = 10 \<or> month = 11 \<or> month = 12"
      by arith
    from False have year: "year = Y" and mm: "m = month - 3" by (simp_all add: Y_def m_def)
    have Y': "1200 < Y" "Y \<le> 9999" using yr False by (simp_all add: Y_def)
    have t: "day \<le> spec_month_length Y month \<longrightarrow>
       qc * 146097 + c * 36524 + q * 1461 + y * 365 + spec_days_before (month - 3) + day - 1
         \<le> 3214073"
      using tight by (simp add: year mm)
    from ov B mc Y' dy day a sd bounds t
    have "grcal_dateToOffset_ov ov p Y month day = grcal_dateToOffset p Y month day"
      by (rule dateToOffset_ov_calc_march)
    then show ?thesis by (simp add: year)
  qed
qed

lemma within_tight:
  "grcal_offsetToDate_ov (within 3214072) GRCAL_DAY_MAX pY pM pD = None"
  "grcal_dateToOffset_ov (within 3214072) p 9999 12 31 = None"
  by (simp_all add: grcal_offsetToDate_ov_def grcal_dateToOffset_ov_def within_def Let_def
      monthLength_values dateToOffset_loop_ov_step dateToOffset_loop_ov_done)

section \<open>The claims\<close>

text \<open>
  C1.  For every day offset in [0, 3074323], grcal_offsetToDate followed by
  grcal_dateToOffset on the resulting year, month and day succeeds and returns the same
  offset, and no other triple composes to that offset: the conversion is a bijection on
  the supported range.
\<close>

theorem offset_roundtrip:
  assumes "0 \<le> offs" and "offs \<le> GRCAL_DAY_MAX"
  shows "\<exists>year month day.
           grcal_offsetToDate offs (Cell y0) (Cell m0) (Cell d0)
             = Some (Cell year, Cell month, Cell day) \<and>
           grcal_dateToOffset (Cell v) year month day = Some (1, Cell offs) \<and>
           (\<forall>year' month' day' v'.
              grcal_dateToOffset (Cell v') year' month' day' = Some (1, Cell offs) \<longrightarrow>
              year' = year \<and> month' = month \<and> day' = day)"
proof -
  from assms obtain year month day where valid: "spec_valid_date year month day"
    and off: "spec_offset year month day = offs"
    by (rule spec_offset_onto)
  from valid assms off
  have dec: "grcal_offsetToDate offs (Cell y0) (Cell m0) (Cell d0)
               = Some (Cell year, Cell month, Cell day)"
    using offsetToDate_spec_offset [of year month day "Cell y0" "Cell m0" "Cell d0"] by simp
  from valid assms off
  have comp: "grcal_dateToOffset (Cell v) year month day = Some (1, Cell offs)"
    by (simp add: dateToOffset_success)
  have uniq: "year' = year \<and> month' = month \<and> day' = day"
    if "grcal_dateToOffset (Cell v') year' month' day' = Some (1, Cell offs)"
    for year' month' day' v'
  proof -
    from that have v: "spec_valid_date year' month' day'"
      and o: "spec_offset year' month' day' = offs"
      by (simp_all add: dateToOffset_success)
    from v o assms
    have "grcal_offsetToDate offs (Cell y0) (Cell m0) (Cell d0)
            = Some (Cell year', Cell month', Cell day')"
      using offsetToDate_spec_offset [of year' month' day' "Cell y0" "Cell m0" "Cell d0"] by simp
    with dec show ?thesis by simp
  qed
  from dec comp uniq show ?thesis by blast
qed

theorem offset_roundtrip_witness:
  "(0::int) \<le> 141427 \<and> (141427::int) \<le> GRCAL_DAY_MAX \<and>
   grcal_offsetToDate 141427 (Cell 0) (Cell 0) (Cell 0) = Some (Cell 1970, Cell 1, Cell 1) \<and>
   grcal_dateToOffset (Cell 0) 1970 1 1 = Some (1, Cell 141427)"
proof -
  have dec: "grcal_offsetToDate 141427 (Cell 0) (Cell 0) (Cell 0)
               = Some (Cell 1970, Cell 1, Cell 1)"
    by (simp add: grcal_offsetToDate_def Let_def offsetToDate_loop_0)
  from offset_roundtrip [of 141427 0 0 0 0] dec show ?thesis by simp
qed

text \<open>
  C2.  Whenever grcal_dateToOffset succeeds on (year, month, dayOfMonth) and writes the
  offset o, grcal_offsetToDate applied to o gives back the same year, month and day.
\<close>

theorem date_roundtrip:
  assumes "grcal_dateToOffset (Cell v) year month day = Some (1, Cell offs)"
  shows "grcal_offsetToDate offs (Cell y0) (Cell m0) (Cell d0)
           = Some (Cell year, Cell month, Cell day)"
proof -
  from assms have "spec_valid_date year month day" "0 \<le> spec_offset year month day"
    "spec_offset year month day \<le> 3074323" "spec_offset year month day = offs"
    by (simp_all add: dateToOffset_success)
  then show ?thesis
    using offsetToDate_spec_offset [of year month day "Cell y0" "Cell m0" "Cell d0"] by simp
qed

theorem date_roundtrip_witness:
  "grcal_dateToOffset (Cell 0) 2000 2 29 = Some (1, Cell 152443) \<and>
   grcal_offsetToDate 152443 (Cell 0) (Cell 0) (Cell 0) = Some (Cell 2000, Cell 2, Cell 29)"
proof -
  have "grcal_dateToOffset (Cell 0) 2000 2 29 = Some (1, Cell 152443)"
    by (simp add: dateToOffset_spec spec_valid_date_def spec_month_length_def
          spec_leap_examples spec_offset_examples)
  with date_roundtrip [of 0 2000 2 29 152443 0 0 0] show ?thesis by simp
qed

text \<open>
  C3.  grcal_dateToOffset fails (returns 0) exactly when a validation condition is
  violated: year at most 1200, year above 9999, month outside [1, 12], day of month
  outside [1, length of that month in that year], or the computed offset outside
  [0, 3074323]; otherwise it succeeds with that offset.  In particular 1582-10-14,
  1200-01-01, 2023-13-01 and 2023-04-31 are rejected.
\<close>

theorem dateToOffset_failure_conditions:
  "grcal_dateToOffset p year month day =
     Some (if year \<le> 1200 \<or> year > 9999 \<or> month < 1 \<or> month > 12 \<or> day < 1 \<or>
              day > spec_month_length year month \<or>
              spec_offset year month day < 0 \<or> spec_offset year month day > GRCAL_DAY_MAX
           then (0, p) else (1, store p (spec_offset year month day))) \<and>
   grcal_dateToOffset p 1582 10 14 = Some (0, p) \<and>
   grcal_dateToOffset p 1200 1 1 = Some (0, p) \<and>
   grcal_dateToOffset p 2023 13 1 = Some (0, p) \<and>
   grcal_dateToOffset p 2023 4 31 = Some (0, p)"
proof -
  have "grcal_dateToOffset p year month day =
     Some (if year \<le> 1200 \<or> year > 9999 \<or> month < 1 \<or> month > 12 \<or> day < 1 \<or>
              day > spec_month_length year month \<or>
              spec_offset year month day < 0 \<or> spec_offset year month day > GRCAL_DAY_MAX
           then (0, p) else (1, store p (spec_offset year month day)))" for year month day
    by (auto simp: dateToOffset_spec spec_valid_date_def)
  moreover have "spec_month_length 2023 4 = 30"
    by (simp add: spec_month_length_def)
  ultimately show ?thesis
    by (simp add: spec_offset_examples)
qed

text \<open>
  C4.  grcal_dateToOffset never aborts, whatever the three integers are: it always returns
  a status.  The helpers abort exactly on a violated precondition (monthLength outside
  [0, 11], isLeapYear below 1), and an abort of a helper is an abort of the caller, so no
  call on the composition path violates one.
\<close>

theorem dateToOffset_never_aborts:
  "(\<exists>result p'. grcal_dateToOffset p year month day = Some (result, p')) \<and>
   (monthLength i = None \<longleftrightarrow> i < 0 \<or> 12 \<le> i) \<and>
   (isLeapYear y = None \<longleftrightarrow> y < 1)"
proof -
  have "monthLength i = None \<longleftrightarrow> i < 0 \<or> 12 \<le> i"
  proof (cases "0 \<le> i \<and> i < 12")
    case True
    then have "i = 0 \<or> i = 1 \<or> i = 2 \<or> i = 3 \<or> i = 4 \<or> i = 5 \<or> i = 6 \<or> i = 7 \<or> i = 8
      \<or> i = 9 \<or> i = 10 \<or> i = 11"
      by (intro month_index_cases) simp_all
    then show ?thesis by (elim disjE) (simp_all add: monthLength_values)
  next
    case False
    then show ?thesis by (auto simp: monthLength_def)
  qed
  moreover have "isLeapYear y = None \<longleftrightarrow> y < 1"
    by (simp add: isLeapYear_def Let_def)
  ultimately show ?thesis
    by (simp add: dateToOffset_spec)
qed

text \<open>
  C5.  For every year at least 1, isLeapYear answers non-zero exactly when the year is
  divisible by 400, or by 4 and not by 100; so 2000-02-29 is accepted and 1900-02-29 is
  rejected.
\<close>

theorem isLeapYear_rule:
  assumes "1 \<le> y"
  shows "(\<exists>leap. isLeapYear y = Some leap \<and>
            (leap \<noteq> 0 \<longleftrightarrow> y mod 400 = 0 \<or> (y mod 4 = 0 \<and> y mod 100 \<noteq> 0))) \<and>
         grcal_dateToOffset p 2000 2 29 = Some (1, store p 152443) \<and>
         grcal_dateToOffset p 1900 2 29 = Some (0, p)"
proof -
  from assms have "isLeapYear y = Some (if spec_leap y then 1 else 0)"
    by (rule isLeapYear_spec)
  then have "\<exists>leap. isLeapYear y = Some leap \<and>
            (leap \<noteq> 0 \<longleftrightarrow> y mod 400 = 0 \<or> (y mod 4 = 0 \<and> y mod 100 \<noteq> 0))"
    by (simp add: spec_leap_def)
  moreover have "grcal_dateToOffset p 2000 2 29 = Some (1, store p 152443)"
    by (simp add: dateToOffset_spec spec_valid_date_def spec_month_length_def
          spec_leap_examples spec_offset_examples)
  moreover have "grcal_dateToOffset p 1900 2 29 = Some (0, p)"
    by (simp add: dateToOffset_spec spec_valid_date_def spec_month_length_def
          spec_leap_examples)
  ultimately show ?thesis by simp
qed

theorem isLeapYear_rule_witness:
  "(1::int) \<le> 2000 \<and> isLeapYear 2000 = Some 1 \<and> isLeapYear 1900 = Some 0 \<and>
   isLeapYear 2024 = Some 1 \<and> isLeapYear 2023 = Some 0"
proof -
  have "isLeapYear 2000 = Some 1 \<and> isLeapYear 1900 = Some 0 \<and>
    isLeapYear 2024 = Some 1 \<and> isLeapYear 2023 = Some 0"
    by (simp add: isLeapYear_def)
  with isLeapYear_rule [of 2000 NULL] show ?thesis by simp
qed

text \<open>
  C6.  Boundary anchors: offset 0 is 1582-10-15, a Friday (weekday 5); the largest offset
  3074323 is 9999-12-31; the exposed Unix-epoch constant 141427 is 1970-01-01.  The three
  output variables may hold anything before the call.
\<close>

theorem boundary_anchors:
  "grcal_offsetToDate 0 (Cell y0) (Cell m0) (Cell d0) = Some (Cell 1582, Cell 10, Cell 15) \<and>
   grcal_weekday 0 = Some 5 \<and>
   grcal_offsetToDate GRCAL_DAY_MAX (Cell y0) (Cell m0) (Cell d0)
     = Some (Cell 9999, Cell 12, Cell 31) \<and>
   grcal_offsetToDate GRCAL_DAY_UNIX (Cell y0) (Cell m0) (Cell d0)
     = Some (Cell 1970, Cell 1, Cell 1)"
  by (simp add: grcal_offsetToDate_def grcal_weekday_def Let_def offsetToDate_loop_0)

text \<open>
  C7.  For every offset in [0, 3074323], grcal_weekday returns ((o' - 3) mod 7) + 1, where
  o' is the offset plus 7 when the offset is below 3 and the offset itself otherwise, and
  the result lies in [1, 7].  The witness evaluates the first Monday (offset 3, weekday 1)
  and the day before it (offset 2, weekday 7, a Sunday).
\<close>

theorem weekday_formula:
  assumes "0 \<le> offs" and "offs \<le> GRCAL_DAY_MAX"
  shows "\<exists>w. grcal_weekday offs = Some w \<and>
           w = ((if offs < 3 then offs + 7 else offs) - 3) mod 7 + 1 \<and> 1 \<le> w \<and> w \<le> 7"
proof -
  let ?o' = "if offs < 3 then offs + 7 else offs"
  have nonneg: "0 \<le> ?o' - 3" using assms by simp
  then have "(?o' - 3) smod 7 = (?o' - 3) mod 7"
    by (rule smod_pos_pos) simp
  then have "grcal_weekday offs = Some ((?o' - 3) mod 7 + 1)"
    using assms by (simp add: grcal_weekday_def Let_def)
  moreover have "0 \<le> (?o' - 3) mod 7" "(?o' - 3) mod 7 < 7"
    by simp_all
  ultimately show ?thesis by simp
qed

theorem weekday_formula_witness:
  "(0::int) \<le> 0 \<and> (0::int) \<le> GRCAL_DAY_MAX \<and> grcal_weekday 0 = Some 5 \<and>
   grcal_weekday 3 = Some 1 \<and> grcal_weekday 2 = Some 7"
  using weekday_formula [of 0] weekday_formula [of 3] weekday_formula [of 2] by simp

text \<open>
  C8.  grcal_dateToOffset leaves the caller's variable untouched whenever it fails, and
  its verdict with an output destination is the verdict with NULL.
\<close>

theorem dateToOffset_no_partial_output:
  "\<exists>result p'.
     grcal_dateToOffset (Cell v) year month day = Some (result, p') \<and>
     grcal_dateToOffset NULL year month day = Some (result, NULL) \<and>
     (result = 0 \<longrightarrow> p' = Cell v)"
  by (simp add: dateToOffset_spec)

theorem dateToOffset_no_partial_output_witness:
  "grcal_dateToOffset (Cell 7) 2023 4 31 = Some (0, Cell 7) \<and>
   grcal_dateToOffset NULL 2023 4 31 = Some (0, NULL) \<and>
   grcal_dateToOffset (Cell 7) 1582 10 15 = Some (1, Cell 0) \<and>
   grcal_dateToOffset NULL 1582 10 15 = Some (1, NULL)"
proof -
  have "spec_month_length 2023 4 = 30" "spec_month_length 1582 10 = 31"
    by (simp_all add: spec_month_length_def)
  then have e: "grcal_dateToOffset (Cell 7) 2023 4 31 = Some (0, Cell 7)"
    "grcal_dateToOffset (Cell 7) 1582 10 15 = Some (1, Cell 0)"
    by (simp_all add: dateToOffset_spec spec_valid_date_def spec_offset_examples)
  from dateToOffset_no_partial_output [of 7 2023 4 31]
    dateToOffset_no_partial_output [of 7 1582 10 15] e
  show ?thesis by auto
qed

text \<open>
  C9.  For every offset in [0, 3074323], grcal_offsetToDate produces a well-formed date:
  year in [1582, 9999], month in [1, 12], day in [1, length of that month in that year],
  and February 29 only in a leap year.
\<close>

theorem offsetToDate_well_formed:
  assumes "0 \<le> offs" and "offs \<le> GRCAL_DAY_MAX"
  shows "\<exists>year month day.
           grcal_offsetToDate offs (Cell y0) (Cell m0) (Cell d0)
             = Some (Cell year, Cell month, Cell day) \<and>
           1582 \<le> year \<and> year \<le> 9999 \<and> 1 \<le> month \<and> month \<le> 12 \<and>
           1 \<le> day \<and> day \<le> spec_month_length year month \<and>
           (month = 2 \<and> day = 29 \<longrightarrow> spec_leap year)"
proof -
  from assms obtain year month day where valid: "spec_valid_date year month day"
    and lo: "1582 \<le> year" and off: "spec_offset year month day = offs"
    by (rule spec_offset_onto)
  from valid assms off
  have "grcal_offsetToDate offs (Cell y0) (Cell m0) (Cell d0)
               = Some (Cell year, Cell month, Cell day)"
    using offsetToDate_spec_offset [of year month day "Cell y0" "Cell m0" "Cell d0"] by simp
  moreover from valid have "year \<le> 9999" "1 \<le> month" "month \<le> 12" "1 \<le> day"
    "day \<le> spec_month_length year month"
    by (simp_all add: spec_valid_date_def)
  moreover from this have "spec_leap year" if "month = 2 \<and> day = 29"
    using that by (simp add: spec_month_length_def split: if_splits)
  ultimately show ?thesis using lo by blast
qed

theorem offsetToDate_well_formed_witness:
  "(0::int) \<le> 152443 \<and> (152443::int) \<le> GRCAL_DAY_MAX \<and>
   grcal_offsetToDate 152443 (Cell 0) (Cell 0) (Cell 0) = Some (Cell 2000, Cell 2, Cell 29) \<and>
   spec_month_length 2000 2 = 29 \<and> spec_leap 2000"
proof -
  have "grcal_offsetToDate 152443 (Cell 0) (Cell 0) (Cell 0) = Some (Cell 2000, Cell 2, Cell 29)"
    by (simp add: grcal_offsetToDate_def Let_def offsetToDate_loop_0)
  with offsetToDate_well_formed [of 152443 0 0 0] show ?thesis
    by (simp add: spec_month_length_def)
qed

text \<open>
  C10.  No arithmetic of grcal_offsetToDate and grcal_dateToOffset overflows 32 bits: on
  offsets in [0, 3074323], and on any date whose day is a 32-bit value, the functions
  computed with 32-bit wrap-around are the functions computed exactly.  More precisely no
  arithmetic result exceeds 3214073 = 3074323 + 139750 in magnitude (for a date, once the
  decrement of the day itself stays below that bound, as it does for every day up to 31),
  and this magnitude is reached: a bound of 3214072 stops both functions at 9999-12-31.
\<close>

theorem no_overflow:
  "(0 \<le> offs \<and> offs \<le> GRCAL_DAY_MAX \<longrightarrow>
      grcal_offsetToDate_ov wrap32 offs pY pM pD = grcal_offsetToDate offs pY pM pD \<and>
      grcal_offsetToDate_ov (within 3214073) offs pY pM pD = grcal_offsetToDate offs pY pM pD) \<and>
   (day \<le> 2147483647 \<longrightarrow>
      grcal_dateToOffset_ov wrap32 p year month day = grcal_dateToOffset p year month day) \<and>
   (day - 1 \<le> 3214073 \<longrightarrow>
      grcal_dateToOffset_ov (within 3214073) p year month day
        = grcal_dateToOffset p year month day) \<and>
   grcal_offsetToDate_ov (within 3214072) GRCAL_DAY_MAX pY pM pD = None \<and>
   grcal_dateToOffset_ov (within 3214072) p 9999 12 31 = None"
proof -
  have w: "\<And>x. - 2147483647 \<le> x \<Longrightarrow> x \<le> 2147483647 \<Longrightarrow> wrap32 x = Some x"
    by (rule wrap32_exact)
  have i: "\<And>x. - 3214073 \<le> x \<Longrightarrow> x \<le> 3214073 \<Longrightarrow> within 3214073 x = Some x"
    by (rule within_exact)
  have 1: "grcal_offsetToDate_ov wrap32 offs pY pM pD = grcal_offsetToDate offs pY pM pD"
    if "0 \<le> offs" "offs \<le> 3074323"
    by (rule offsetToDate_ov_eq [of 2147483647, OF w]) (use that in simp_all)
  have 2: "grcal_offsetToDate_ov (within 3214073) offs pY pM pD
             = grcal_offsetToDate offs pY pM pD"
    if "0 \<le> offs" "offs \<le> 3074323"
    by (rule offsetToDate_ov_eq [of 3214073, OF i]) (use that in simp_all)
  have 3: "grcal_dateToOffset_ov wrap32 p year month day = grcal_dateToOffset p year month day"
    if "day \<le> 2147483647"
    by (rule dateToOffset_ov_eq [of 2147483647, OF w]) (use that in simp_all)
  have 4: "grcal_dateToOffset_ov (within 3214073) p year month day
             = grcal_dateToOffset p year month day"
    if "day - 1 \<le> 3214073"
    by (rule dateToOffset_ov_eq [of 3214073, OF i]) (use that in simp_all)
  from 1 2 3 4 show ?thesis
    by (simp add: within_tight)
qed

theorem no_overflow_witness:
  "(0::int) \<le> GRCAL_DAY_MAX \<and> GRCAL_DAY_MAX \<le> GRCAL_DAY_MAX \<and>
   (31::int) \<le> 2147483647 \<and> (31::int) - 1 \<le> 3214073 \<and>
   grcal_offsetToDate_ov wrap32 GRCAL_DAY_MAX (Cell 0) (Cell 0) (Cell 0)
     = Some (Cell 9999, Cell 12, Cell 31) \<and>
   grcal_offsetToDate_ov (within 3214073) GRCAL_DAY_MAX (Cell 0) (Cell 0) (Cell 0)
     = Some (Cell 9999, Cell 12, Cell 31) \<and>
   grcal_dateToOffset_ov wrap32 (Cell 0) 9999 12 31 = Some (1, Cell GRCAL_DAY_MAX) \<and>
   grcal_dateToOffset_ov (within 3214073) (Cell 0) 9999 12 31 = Some (1, Cell GRCAL_DAY_MAX)"
proof -
  have "grcal_offsetToDate GRCAL_DAY_MAX (Cell 0) (Cell 0) (Cell 0)
          = Some (Cell 9999, Cell 12, Cell 31)"
    by (simp add: grcal_offsetToDate_def Let_def offsetToDate_loop_0)
  moreover have "spec_month_length 9999 12 = 31"
    by (simp add: spec_month_length_def)
  then have "grcal_dateToOffset (Cell 0) 9999 12 31 = Some (1, Cell GRCAL_DAY_MAX)"
    by (simp add: dateToOffset_spec spec_valid_date_def spec_offset_examples)
  ultimately show ?thesis
    using no_overflow [of GRCAL_DAY_MAX "Cell 0" "Cell 0" "Cell 0" 31 "Cell 0" 9999 12]
    by simp
qed

end
